theory Spec2Isabelle
  imports Main "HOL-Library.AList"
begin

section \<open>JavaScript strings and numbers\<close>

text \<open>
  A JavaScript string is modelled as a \<open>string\<close> (a list of \<open>char\<close>): each \<open>char\<close>
  stands for one code unit in the range 0..255, which covers every character the
  functions below treat specially (digits, the double quote, the delimiter, line
  breaks and the white space of \<open>String.prototype.trim\<close>).
\<close>

definition dquote :: char where
  "dquote = CHR 0x22"

definition LF :: char where
  "LF = CHR 0x0A"

definition CR :: char where
  "CR = CHR 0x0D"

text \<open>The class \<open>\d\<close> of a regular expression without the unicode flag: \<open>[0-9]\<close>.\<close>

definition is_digit :: "char \<Rightarrow> bool" where
  "is_digit c = (48 \<le> (of_char c :: nat) \<and> (of_char c :: nat) \<le> 57)"

text \<open>\<open>s.replace(/\D/g, '')\<close>: every code unit that is not a digit is removed.\<close>

definition strip_non_digits :: "string \<Rightarrow> string" where
  "strip_non_digits s = filter is_digit s"

text \<open>
  \<open>parseInt(ch, 10)\<close> on a string of one code unit: the digit's value, or \<open>NaN\<close>
  (modelled as \<open>None\<close>) for anything else.
\<close>

definition parseInt :: "char \<Rightarrow> nat option" where
  "parseInt c = (if is_digit c then Some (of_char c - 48) else None)"

text \<open>\<open>n.toString()\<close> for a natural number, in decimal.\<close>

definition digit_char :: "nat \<Rightarrow> char" where
  "digit_char d = char_of (48 + d)"

function toString :: "nat \<Rightarrow> string" where
  "toString n = (if n < 10 then [digit_char n] else toString (n div 10) @ [digit_char (n mod 10)])"
  by pat_completeness auto
termination
  by (relation "measure (\<lambda>n. n)") auto

declare toString.simps [simp del]

definition toString_int :: "int \<Rightarrow> string" where
  "toString_int i = (if i < 0 then CHR ''-'' # toString (nat (- i)) else toString (nat i))"

text \<open>
  The white space that \<open>String.prototype.trim\<close> removes, within the code units
  modelled: TAB, LF, VT, FF, CR, SPACE and NO-BREAK SPACE.
\<close>

definition is_space :: "char \<Rightarrow> bool" where
  "is_space c = ((of_char c :: nat) \<in> {9, 10, 11, 12, 13, 32, 160})"

definition trim :: "string \<Rightarrow> string" where
  "trim s = rev (dropWhile is_space (rev (dropWhile is_space s)))"

text \<open>Exceptions: the constructor is the error class, the argument its message.\<close>

datatype exn = Error string | TypeError string | RangeError string

fun message :: "exn \<Rightarrow> string" where
  "message (Error m) = m"
| "message (TypeError m) = m"
| "message (RangeError m) = m"

section \<open>Plain objects used as dictionaries\<close>

text \<open>
  An object literal is modelled by the association list of its own properties, in the
  order \<open>Object.keys\<close> reports them. Reading \<open>obj[key]\<close> also sees what the object
  inherits from \<open>Object.prototype\<close>: for these names the value is a function (or, for
  \<open>__proto__\<close>, the prototype object itself), never \<open>undefined\<close>. The table gives each
  inherited member with the value of its \<open>length\<close> property (\<open>None\<close> where it has
  none).
\<close>

definition OBJECT_PROTOTYPE :: "(string \<times> nat option) list" where
  "OBJECT_PROTOTYPE =
     [(''constructor'', Some 1),
      (''__defineGetter__'', Some 2),
      (''__defineSetter__'', Some 2),
      (''hasOwnProperty'', Some 1),
      (''__lookupGetter__'', Some 1),
      (''__lookupSetter__'', Some 1),
      (''isPrototypeOf'', Some 1),
      (''propertyIsEnumerable'', Some 1),
      (''toString'', Some 0),
      (''valueOf'', Some 0),
      (''__proto__'', None),
      (''toLocaleString'', Some 0)]"

datatype 'a property = Own 'a | Inherited | Absent

definition inherited :: "string \<Rightarrow> bool" where
  "inherited k = (k \<in> set (map fst OBJECT_PROTOTYPE))"

definition get_prop :: "(string \<times> 'a) list \<Rightarrow> string \<Rightarrow> 'a property" where
  "get_prop obj k =
     (case map_of obj k of
        Some v \<Rightarrow> Own v
      | None \<Rightarrow> if inherited k then Inherited else Absent)"

section \<open>Card numbers (generators/card.ts)\<close>

definition CARD_PREFIXES :: "(string \<times> string list) list" where
  "CARD_PREFIXES =
     [(''visa'', [''4'']),
      (''mastercard'', [''51'', ''52'', ''53'', ''54'', ''55'', ''2221'', ''2720'']),
      (''amex'', [''34'', ''37'']),
      (''discover'', [''6011'', ''644'', ''645'', ''646'', ''647'', ''648'', ''649'', ''65''])]"

definition CARD_LENGTHS :: "(string \<times> nat) list" where
  "CARD_LENGTHS = [(''visa'', 16), (''mastercard'', 16), (''amex'', 15), (''discover'', 16)]"

definition CVC_LENGTHS :: "(string \<times> nat) list" where
  "CVC_LENGTHS = [(''visa'', 3), (''mastercard'', 3), (''amex'', 4), (''discover'', 3)]"

subsection \<open>The Luhn check\<close>

text \<open>
  \<open>luhnCheck\<close> visits the digits from the last to the first; \<open>luhnLoop\<close> is the loop
  body over the digits in that order, with the running sum \<open>acc\<close> and the flag
  \<open>isEven\<close>.
  A \<open>NaN\<close> digit makes the sum \<open>NaN\<close>, and \<open>NaN % 10 === 0\<close> is false.
\<close>

fun luhnLoop :: "string \<Rightarrow> nat option \<Rightarrow> bool \<Rightarrow> nat option" where
  "luhnLoop [] acc isEven = acc"
| "luhnLoop (c # cs) acc isEven =
     (let digit = parseInt c;
          digit = (if isEven
                   then map_option (\<lambda>d. if d * 2 > 9 then d * 2 - 9 else d * 2) digit
                   else digit);
          acc = (case (acc, digit) of (Some s, Some d) \<Rightarrow> Some (s + d) | _ \<Rightarrow> None)
      in luhnLoop cs acc (\<not> isEven))"

definition luhnCheck :: "string \<Rightarrow> bool" where
  "luhnCheck digits =
     (case luhnLoop (rev digits) (Some 0) False of
        Some s \<Rightarrow> s mod 10 = 0
      | None \<Rightarrow> False)"

definition isValidCardNumber :: "string \<Rightarrow> bool" where
  "isValidCardNumber number =
     (let digits = strip_non_digits number
      in if length digits < 13 \<or> length digits > 19 then False else luhnCheck digits)"

text \<open>
  \<open>calculateLuhnCheckDigit\<close>: the loop \<open>for (digit = 0; digit <= 9; digit++)\<close> returns
  the first digit that passes, \<open>checkDigitLoop\<close> gives \<open>None\<close> when the loop falls
  through to the final \<open>return '0'\<close>.
\<close>

function checkDigitLoop :: "string \<Rightarrow> nat \<Rightarrow> nat option" where
  "checkDigitLoop partialNumber digit =
     (if digit \<le> 9
      then (if luhnCheck (partialNumber @ toString digit) then Some digit
            else checkDigitLoop partialNumber (digit + 1))
      else None)"
  by pat_completeness auto
termination
  by (relation "measure (\<lambda>(p, digit). 10 - digit)") auto

declare checkDigitLoop.simps [simp del]

definition calculateLuhnCheckDigit :: "string \<Rightarrow> string" where
  "calculateLuhnCheckDigit partialNumber =
     (case checkDigitLoop partialNumber 0 of
        Some digit \<Rightarrow> toString digit
      | None \<Rightarrow> ''0'')"

subsection \<open>The random source (generators/random.ts)\<close>

text \<open>
  \<open>Math.random()\<close> is modelled by an arbitrary sequence \<open>rnd\<close> of natural numbers and
  the position \<open>p\<close> of the next draw. \<open>Math.floor(Math.random() * n)\<close> can be any
  integer from 0 to \<open>n - 1\<close>; the model takes \<open>rnd p mod n\<close>, which ranges over all of
  them as \<open>rnd\<close> ranges over all sequences.
\<close>

definition randomInt :: "(nat \<Rightarrow> nat) \<Rightarrow> nat \<Rightarrow> nat \<Rightarrow> nat \<Rightarrow> exn + (nat \<times> nat)" where
  "randomInt rnd p lo hi =
     (if lo > hi then Inl (Error ''min must be less than or equal to max'')
      else Inr (rnd p mod (hi - lo + 1) + lo, p + 1))"

definition randomElement :: "(nat \<Rightarrow> nat) \<Rightarrow> nat \<Rightarrow> 'a list \<Rightarrow> exn + ('a \<times> nat)" where
  "randomElement rnd p array =
     (if length array = 0 then Inl (Error ''Cannot get random element from empty array'')
      else case randomInt rnd p 0 (length array - 1) of
             Inl e \<Rightarrow> Inl e
           | Inr (i, p') \<Rightarrow> Inr (array ! i, p'))"

subsection \<open>Generation\<close>

text \<open>
  The loop \<open>for (i = 0; i < n; i++) number += randomInt(0, 9).toString()\<close>, used by
  \<open>generateCardNumber\<close> and \<open>generateCVC\<close>; the last argument counts the iterations
  that remain.
\<close>

fun appendRandomDigits :: "(nat \<Rightarrow> nat) \<Rightarrow> nat \<Rightarrow> string \<Rightarrow> nat \<Rightarrow> exn + (string \<times> nat)" where
  "appendRandomDigits rnd p number 0 = Inr (number, p)"
| "appendRandomDigits rnd p number (Suc n) =
     (case randomInt rnd p 0 9 of
        Inl e \<Rightarrow> Inl e
      | Inr (d, p') \<Rightarrow> appendRandomDigits rnd p' (number @ toString d) n)"

text \<open>
  \<open>CardOptions\<close>: the optional fields \<open>type\<close> (here \<open>ctype\<close>) and \<open>valid\<close>; \<open>None\<close> is a
  field that is not given. The type is any string, as a caller in JavaScript can pass.
\<close>

record card_options =
  ctype :: "string option"
  valid :: "bool option"

text \<open>
  The \<open>TypeError\<close> of reading \<open>prefix.length\<close> when \<open>prefix\<close> is \<open>undefined\<close> (the
  message is the one of V8, the engine of Node.js).
\<close>

definition undefined_length_error :: exn where
  "undefined_length_error =
     TypeError (''Cannot read properties of undefined (reading '' @ [CHR 0x27] @ ''length''
                @ [CHR 0x27] @ '')'')"

text \<open>
  The body of \<open>generateCardNumber\<close> once the prefixes, the length and the flag are
  known: a random prefix, random digits up to one short of the length, and the check
  digit or one more random digit.
\<close>

definition generateFrom ::
  "(nat \<Rightarrow> nat) \<Rightarrow> nat \<Rightarrow> string list \<Rightarrow> nat \<Rightarrow> bool \<Rightarrow> exn + (string \<times> nat)" where
  "generateFrom rnd p prefixes len checked =
     (case randomElement rnd p prefixes of
        Inl e \<Rightarrow> Inl e
      | Inr (prefix, p1) \<Rightarrow>
          (let remainingLength = int len - int (length prefix) - 1
           in case appendRandomDigits rnd p1 prefix (nat remainingLength) of
                Inl e \<Rightarrow> Inl e
              | Inr (number, p2) \<Rightarrow>
                  if checked then Inr (number @ calculateLuhnCheckDigit number, p2)
                  else (case randomInt rnd p2 0 9 of
                          Inl e \<Rightarrow> Inl e
                        | Inr (d, p3) \<Rightarrow> Inr (number @ toString d, p3))))"

text \<open>
  \<open>generateCardNumber\<close>. \<open>CARD_PREFIXES[type] || CARD_PREFIXES['visa']\<close> falls back
  only when the lookup is \<open>undefined\<close>. For a name inherited from \<open>Object.prototype\<close>
  the lookup is a function or object: \<open>randomElement\<close> throws when its \<open>length\<close> is 0,
  and otherwise returns \<open>undefined\<close> (it has no indexed element), so that
  \<open>prefix.length\<close> throws.
\<close>

definition generateCardNumber ::
  "(nat \<Rightarrow> nat) \<Rightarrow> nat \<Rightarrow> card_options \<Rightarrow> exn + (string \<times> nat)" where
  "generateCardNumber rnd p options =
     (let type = (case ctype options of None \<Rightarrow> ''visa'' | Some t \<Rightarrow> t);
          valid = (case valid options of None \<Rightarrow> True | Some b \<Rightarrow> b)
      in case get_prop CARD_PREFIXES type of
           Inherited \<Rightarrow>
             (case map_of OBJECT_PROTOTYPE type of
                Some (Some 0) \<Rightarrow> Inl (Error ''Cannot get random element from empty array'')
              | _ \<Rightarrow> Inl undefined_length_error)
         | found \<Rightarrow>
             (let prefixes = (case found of
                                Own ps \<Rightarrow> ps
                              | _ \<Rightarrow> (case map_of CARD_PREFIXES ''visa'' of
                                         Some ps \<Rightarrow> ps | None \<Rightarrow> []));
                  len = (case get_prop CARD_LENGTHS type of
                           Own n \<Rightarrow> if n = 0 then 16 else n
                         | _ \<Rightarrow> 16)
              in generateFrom rnd p prefixes len valid))"

text \<open>\<open>s.padStart(2, '0')\<close>.\<close>

definition padStart2 :: "string \<Rightarrow> string" where
  "padStart2 s = replicate (2 - length s) CHR ''0'' @ s"

text \<open>\<open>generateExpiry\<close>; \<open>year\<close> is \<open>new Date().getFullYear()\<close>.\<close>

definition generateExpiry :: "(nat \<Rightarrow> nat) \<Rightarrow> nat \<Rightarrow> nat \<Rightarrow> nat \<Rightarrow> exn + (string \<times> nat)" where
  "generateExpiry rnd p year yearsAhead =
     (case randomInt rnd p 1 yearsAhead of
        Inl e \<Rightarrow> Inl e
      | Inr (r, p1) \<Rightarrow>
          (case randomInt rnd p1 1 12 of
             Inl e \<Rightarrow> Inl e
           | Inr (month, p2) \<Rightarrow>
               Inr (padStart2 (toString month) @ ''/'' @ padStart2 (toString ((year + r) mod 100)),
                    p2)))"

definition generateCVC :: "(nat \<Rightarrow> nat) \<Rightarrow> nat \<Rightarrow> nat \<Rightarrow> exn + (string \<times> nat)" where
  "generateCVC rnd p len = appendRandomDigits rnd p [] len"

record card_info =
  number :: string
  expiry :: string
  cvc :: string
  card_type :: string

text \<open>
  \<open>generateCard\<close>: \<open>options.type || 'visa'\<close> also replaces the empty string. The
  object literal evaluates its fields in order: the number, the expiry, the CVC. An
  inherited member as \<open>cvcLength\<close> is not a number, \<open>i < cvcLength\<close> is false and the CVC
  loop runs no iteration.
\<close>

definition generateCard ::
  "(nat \<Rightarrow> nat) \<Rightarrow> nat \<Rightarrow> nat \<Rightarrow> card_options \<Rightarrow> exn + (card_info \<times> nat)" where
  "generateCard rnd p year options =
     (let type = (case ctype options of
                    None \<Rightarrow> ''visa''
                  | Some t \<Rightarrow> if t = [] then ''visa'' else t);
          cvcLength = (case get_prop CVC_LENGTHS type of
                         Own n \<Rightarrow> if n = 0 then 3 else n
                       | Absent \<Rightarrow> 3
                       | Inherited \<Rightarrow> 0)
      in case generateCardNumber rnd p options of
           Inl e \<Rightarrow> Inl e
         | Inr (num, p1) \<Rightarrow>
             (case generateExpiry rnd p1 year 3 of
                Inl e \<Rightarrow> Inl e
              | Inr (ex, p2) \<Rightarrow>
                  (case generateCVC rnd p2 cvcLength of
                     Inl e \<Rightarrow> Inl e
                   | Inr (cv, p3) \<Rightarrow>
                       Inr (\<lparr>number = num, expiry = ex, cvc = cv, card_type = type\<rparr>, p3))))"

subsection \<open>Classification, formatting and masking\<close>

definition startsWith :: "string \<Rightarrow> string \<Rightarrow> bool" where
  "startsWith s p = (take (length p) s = p)"

text \<open>
  \<open>getCardType\<close>: the first type, in the order of \<open>Object.entries(CARD_PREFIXES)\<close>, one
  of whose prefixes starts the digits; \<open>None\<close> is \<open>null\<close>. Like \<open>isValidCardNumber\<close> and
  \<open>formatCardNumber\<close> it only replaces, compares and concatenates strings, which never
  throws: these three are total functions with no error result.
\<close>

definition getCardType :: "string \<Rightarrow> string option" where
  "getCardType num =
     (let digits = strip_non_digits num
      in map_option fst
           (find (\<lambda>(type, prefixes). list_ex (\<lambda>prefix. startsWith digits prefix) prefixes)
              CARD_PREFIXES))"

text \<open>
  \<open>digits.replace(/(\d{4})(?=\d)/g, '$1 ')\<close> on a string of digits: each group of four
  digits that is followed by a digit gets a space after it.
\<close>

function group4 :: "string \<Rightarrow> string" where
  "group4 ds = (if length ds \<ge> 5 then take 4 ds @ '' '' @ group4 (drop 4 ds) else ds)"
  by pat_completeness auto
termination
  by (relation "measure length") auto

declare group4.simps [simp del]

text \<open>
  \<open>digits.replace(/(\d{4})(\d{6})(\d{5})/, '$1 $2 $3')\<close> on a string of digits: the first
  fifteen digits are grouped 4-6-5, when there are that many.
\<close>

definition group465 :: "string \<Rightarrow> string" where
  "group465 ds =
     (if length ds \<ge> 15
      then take 4 ds @ '' '' @ take 6 (drop 4 ds) @ '' '' @ take 5 (drop 10 ds) @ drop 15 ds
      else ds)"

definition formatCardNumber :: "string \<Rightarrow> string option \<Rightarrow> string" where
  "formatCardNumber num type =
     (let digits = strip_non_digits num;
          cardType = (case (case type of Some t \<Rightarrow> if t = [] then None else Some t
                                       | None \<Rightarrow> None) of
                        Some t \<Rightarrow> t
                      | None \<Rightarrow> (case getCardType digits of Some t \<Rightarrow> t | None \<Rightarrow> ''visa''))
      in if cardType = ''amex'' then group465 digits else trim (group4 digits))"

text \<open>
  \<open>maskCardNumber\<close>. \<open>'*'.repeat(count)\<close> throws a \<open>RangeError\<close> for a negative count.
  \<open>digits.slice(-visibleDigits)\<close> keeps the last \<open>visibleDigits\<close> code units when that
  is positive and drops the first \<open>-visibleDigits\<close> otherwise. \<open>visibleDigits\<close> is
  modelled as an integer: a count with a fraction, a magnitude from \<open>2^53\<close> on, where the
  subtraction rounds, and the engine's limit on the length of a string are not modelled.
\<close>

definition maskCardNumber :: "string \<Rightarrow> int \<Rightarrow> exn + string" where
  "maskCardNumber num visibleDigits =
     (let digits = strip_non_digits num;
          count = int (length digits) - visibleDigits
      in if count < 0 then Inl (RangeError (''Invalid count value: '' @ toString_int count))
         else
           (let masked = replicate (nat count) CHR ''*'';
                visible = (if visibleDigits > 0 then drop (nat count) digits
                           else drop (nat (- visibleDigits)) digits)
            in Inr (formatCardNumber (masked @ visible) None)))"

section \<open>CSV (file/csv.ts)\<close>

subsection \<open>Rows as objects\<close>

text \<open>
  A row is an object with string values: the association list of its own properties in
  the order of \<open>Object.keys\<close>. That order lists the keys that are array indices
  (canonical decimal numerals up to \<open>2^32 - 2\<close>) first, in ascending numeric order,
  and then the other keys in the order of their creation.
\<close>

type_synonym row = "(string \<times> string) list"

definition digits_value :: "string \<Rightarrow> nat" where
  "digits_value s = fold (\<lambda>c n. 10 * n + (of_char c - 48)) s 0"

definition is_array_index :: "string \<Rightarrow> bool" where
  "is_array_index k =
     (k \<noteq> [] \<and> list_all is_digit k \<and> (k = ''0'' \<or> hd k \<noteq> CHR ''0'')
      \<and> digits_value k \<le> 4294967294)"

fun insert_index :: "string \<Rightarrow> string \<Rightarrow> row \<Rightarrow> row" where
  "insert_index k v [] = [(k, v)]"
| "insert_index k v ((k', v') # obj) =
     (if is_array_index k' \<and> digits_value k' < digits_value k
      then (k', v') # insert_index k v obj
      else (k, v) # (k', v') # obj)"

text \<open>
  The assignment \<open>row[key] = v\<close> of a string \<open>v\<close>. For the key \<open>__proto__\<close> it calls
  the setter inherited from \<open>Object.prototype\<close>, which ignores a value that is not an
  object: no property is created. An existing property keeps its place and a new one
  that is not an array index goes last, which is what \<open>AList.update\<close> does.
\<close>

definition set_prop :: "row \<Rightarrow> string \<Rightarrow> string \<Rightarrow> row" where
  "set_prop obj k v =
     (if k = ''__proto__'' then obj
      else if is_array_index k \<and> k \<notin> set (map fst obj) then insert_index k v obj
      else AList.update k v obj)"

text \<open>
  \<open>String(row[header])\<close> where the property is inherited: the text V8 gives for the
  members of \<open>Object.prototype\<close>.
\<close>

definition inherited_text :: "string \<Rightarrow> string" where
  "inherited_text k =
     (if k = ''__proto__'' then ''[object Object]''
      else if k = ''constructor'' then ''function Object() { [native code] }''
      else ''function '' @ k @ ''() { [native code] }'')"

subsection \<open>Options\<close>

record csv_options =
  delimiter :: "string option"
  hasHeaders :: "bool option"
  skipEmptyLines :: "bool option"

text \<open>\<open>{ ...DEFAULT_OPTIONS, ...options }\<close>, field by field (the encoding only matters
  to the file read).\<close>

definition opt_delimiter :: "'a csv_options_scheme \<Rightarrow> string" where
  "opt_delimiter options = (case delimiter options of None \<Rightarrow> '','' | Some d \<Rightarrow> d)"

definition opt_hasHeaders :: "'a csv_options_scheme \<Rightarrow> bool" where
  "opt_hasHeaders options = (case hasHeaders options of None \<Rightarrow> True | Some b \<Rightarrow> b)"

definition opt_skipEmptyLines :: "'a csv_options_scheme \<Rightarrow> bool" where
  "opt_skipEmptyLines options = (case skipEmptyLines options of None \<Rightarrow> True | Some b \<Rightarrow> b)"

definition DEFAULT_OPTIONS :: csv_options where
  "DEFAULT_OPTIONS = \<lparr>delimiter = None, hasHeaders = None, skipEmptyLines = None\<rparr>"

subsection \<open>Parsing\<close>

text \<open>
  \<open>content.split(/\r?\n/)\<close>: a line ends at LF, or at CR immediately followed by LF;
  \<open>cur\<close> holds the code units of the line being read.
\<close>

fun split_lines_from :: "string \<Rightarrow> string \<Rightarrow> string list" where
  "split_lines_from cur [] = [cur]"
| "split_lines_from cur [c] =
     (if c = LF then [cur, []] else [cur @ [c]])"
| "split_lines_from cur (c # c' # rest) =
     (if c = LF then cur # split_lines_from [] (c' # rest)
      else if c = CR \<and> c' = LF then cur # split_lines_from [] rest
      else split_lines_from (cur @ [c]) (c' # rest))"

definition split_lines :: "string \<Rightarrow> string list" where
  "split_lines content = split_lines_from [] content"

text \<open>
  \<open>parseLine\<close>: the loop over the code units of the line, with the fields read so far
  (\<open>result\<close>), the field being read (\<open>current\<close>) and the flag \<open>inQuotes\<close>. The test
  \<open>char === delimiter\<close> compares a string of one code unit with the delimiter string.
\<close>

fun parseLoop :: "string \<Rightarrow> string list \<Rightarrow> string \<Rightarrow> bool \<Rightarrow> string \<Rightarrow> string list" where
  "parseLoop delim result current inQuotes [] = result @ [trim current]"
| "parseLoop delim result current inQuotes (c # rest) =
     (if inQuotes then
        (if c = dquote then
           (case rest of
              nextChar # rest' \<Rightarrow>
                if nextChar = dquote then parseLoop delim result (current @ [dquote]) True rest'
                else parseLoop delim result current False rest
            | [] \<Rightarrow> parseLoop delim result current False rest)
         else parseLoop delim result (current @ [c]) True rest)
      else
        (if c = dquote then parseLoop delim result current True rest
         else if [c] = delim then parseLoop delim (result @ [trim current]) [] False rest
         else parseLoop delim result (current @ [c]) False rest))"

definition parseLine :: "string \<Rightarrow> string \<Rightarrow> string list" where
  "parseLine line delim = parseLoop delim [] [] False line"

text \<open>\<open>values[index] || ''\<close>: an index past the end reads \<open>undefined\<close>.\<close>

definition value_or_empty :: "string list \<Rightarrow> nat \<Rightarrow> string" where
  "value_or_empty values index = (if index < length values then values ! index else [])"

text \<open>The \<open>forEach\<close> over the headers that fills one row.\<close>

definition build_row :: "string list \<Rightarrow> string list \<Rightarrow> row" where
  "build_row headers values =
     fold (\<lambda>(index, header) row. set_prop row header (value_or_empty values index))
       (zip [0..<length headers] headers) []"

text \<open>
  The lines of the content that \<open>parseCSV\<close> reads: \<open>filteredLines\<close>. None of the
  operations of \<open>parseCSV\<close> throws on a string, so its model returns the rows and has
  no error result.
\<close>

definition filteredLines :: "string \<Rightarrow> 'a csv_options_scheme \<Rightarrow> string list" where
  "filteredLines content options =
     (let lines = split_lines content
      in if opt_skipEmptyLines options
         then filter (\<lambda>line. length (trim line) > 0) lines
         else lines)"

definition parseCSV :: "string \<Rightarrow> 'a csv_options_scheme \<Rightarrow> row list" where
  "parseCSV content options =
     (case filteredLines content options of
        [] \<Rightarrow> []
      | first # others \<Rightarrow>
          (let headers = (if opt_hasHeaders options
                          then parseLine first (opt_delimiter options)
                          else map (\<lambda>i. ''column_'' @ toString i)
                                 [0..<length (parseLine first (opt_delimiter options))]);
               dataLines = (if opt_hasHeaders options then others
                            else filteredLines content options)
           in map (\<lambda>line. build_row headers (parseLine line (opt_delimiter options)))
                dataLines))"

subsection \<open>Serialising\<close>

text \<open>\<open>value.includes(sub)\<close>: \<open>sub\<close> occurs in \<open>value\<close> as a contiguous substring.\<close>

fun js_includes :: "string \<Rightarrow> string \<Rightarrow> bool" where
  "js_includes [] sub = (sub = [])"
| "js_includes (c # cs) sub = (startsWith (c # cs) sub \<or> js_includes cs sub)"

definition escapeField :: "string \<Rightarrow> string \<Rightarrow> string" where
  "escapeField v delim =
     (let needsQuoting = (js_includes v delim \<or> dquote \<in> set v \<or> LF \<in> set v \<or> CR \<in> set v)
      in if needsQuoting
         then (let escaped = concat (map (\<lambda>c. if c = dquote then [dquote, dquote] else [c]) v)
               in [dquote] @ escaped @ [dquote])
         else v)"

text \<open>\<open>Array.prototype.join\<close>.\<close>

fun join :: "string \<Rightarrow> string list \<Rightarrow> string" where
  "join sep [] = []"
| "join sep [x] = x"
| "join sep (x # y # ys) = x @ sep @ join sep (y # ys)"

text \<open>
  The text of \<open>row[header]\<close> in \<open>stringifyCSV\<close>: \<open>undefined\<close> gives the empty string, a
  string itself.
\<close>

definition cell_text :: "row \<Rightarrow> string \<Rightarrow> string" where
  "cell_text row header =
     (case get_prop row header of
        Own v \<Rightarrow> v
      | Absent \<Rightarrow> []
      | Inherited \<Rightarrow> inherited_text header)"

definition stringifyCSV :: "row list \<Rightarrow> 'a csv_options_scheme \<Rightarrow> string" where
  "stringifyCSV data options =
     (case data of
        [] \<Rightarrow> []
      | first # _ \<Rightarrow>
          (let headers = map fst first;
               delim = opt_delimiter options;
               headerLines = (if opt_hasHeaders options
                              then [join delim (map (\<lambda>h. escapeField h delim) headers)]
                              else []);
               dataLines = map (\<lambda>row. join delim
                                  (map (\<lambda>header. escapeField (cell_text row header) delim) headers))
                             data
           in join [LF] (headerLines @ dataLines)))"

subsection \<open>Validation\<close>

record csv_validation_options = csv_options +
  expectedRowCount :: "int option"
  expectedColumns :: "string list option"
  requiredFields :: "string list option"
  minRowCount :: "int option"
  maxRowCount :: "int option"

record csv_validation_result =
  isValid :: bool
  errors :: "string list"
  rowCount :: nat
  columns :: "string list"

text \<open>
  \<open>readCSV\<close>: the first argument is the outcome of \<open>fs.promises.readFile\<close>, a rejection
  with an exception or the content of the file.
\<close>

definition readCSV :: "exn + string \<Rightarrow> 'a csv_options_scheme \<Rightarrow> exn + row list" where
  "readCSV file options =
     (case file of Inl e \<Rightarrow> Inl e | Inr content \<Rightarrow> Inr (parseCSV content options))"

text \<open>
  The \<open>TypeError\<close> of calling \<open>row[field].trim()\<close> when \<open>row[field]\<close> is a member
  inherited from \<open>Object.prototype\<close>, which has no method \<open>trim\<close> (the message is V8's).
\<close>

definition trim_type_error :: exn where
  "trim_type_error = TypeError ''row[field].trim is not a function''"

definition missing_field_message :: "nat \<Rightarrow> string \<Rightarrow> string" where
  "missing_field_message i field =
     ''Row '' @ toString (i + 1) @ '': Missing required field '' @ [CHR 0x27] @ field @ [CHR 0x27]"

text \<open>
  The inner loop over the required fields of row \<open>i\<close>, and the outer loop over the rows
  from index \<open>i\<close> on. \<open>!row[field] || row[field].trim() === ''\<close> holds for an absent or
  empty or blank value, and throws for an inherited one.
\<close>

fun check_fields :: "row \<Rightarrow> nat \<Rightarrow> string list \<Rightarrow> string list \<Rightarrow> exn + string list" where
  "check_fields row i [] errs = Inr errs"
| "check_fields row i (field # required) errs =
     (case get_prop row field of
        Inherited \<Rightarrow> Inl trim_type_error
      | Absent \<Rightarrow> check_fields row i required (errs @ [missing_field_message i field])
      | Own v \<Rightarrow>
          check_fields row i required
            (if v = [] \<or> trim v = [] then errs @ [missing_field_message i field] else errs))"

fun check_rows :: "row list \<Rightarrow> nat \<Rightarrow> string list \<Rightarrow> string list \<Rightarrow> exn + string list" where
  "check_rows [] i required errs = Inr errs"
| "check_rows (row # rows) i required errs =
     (case check_fields row i required errs of
        Inl e \<Rightarrow> Inl e
      | Inr errs' \<Rightarrow> check_rows rows (i + 1) required errs')"

text \<open>
  The errors collected before the required fields are checked, in order. The row counts
  of the options are modelled as integers and printed in decimal: the exponent notation
  that JavaScript uses from \<open>10^21\<close> on is not modelled.
\<close>

definition count_errors :: "csv_validation_options \<Rightarrow> row list \<Rightarrow> string list \<Rightarrow> string list" where
  "count_errors options data cols =
     (case expectedColumns options of
        None \<Rightarrow> []
      | Some expected \<Rightarrow>
          (let missingColumns = filter (\<lambda>col. col \<notin> set cols) expected
           in if length missingColumns > 0
              then [''Missing columns: '' @ join '', '' missingColumns]
              else []))
     @ (case expectedRowCount options of
          None \<Rightarrow> []
        | Some n \<Rightarrow>
            if int (length data) \<noteq> n
            then [''Expected '' @ toString_int n @ '' rows, got '' @ toString (length data)]
            else [])
     @ (case minRowCount options of
          None \<Rightarrow> []
        | Some n \<Rightarrow>
            if int (length data) < n
            then [''Expected at least '' @ toString_int n @ '' rows, got '' @ toString (length data)]
            else [])
     @ (case maxRowCount options of
          None \<Rightarrow> []
        | Some n \<Rightarrow>
            if int (length data) > n
            then [''Expected at most '' @ toString_int n @ '' rows, got '' @ toString (length data)]
            else [])"

text \<open>
  \<open>validateCSV\<close>: everything after the read runs inside the \<open>try\<close> block, so that the
  \<open>catch\<close> clause also receives an exception of the checks.
\<close>

definition validateCSV :: "exn + string \<Rightarrow> csv_validation_options \<Rightarrow> csv_validation_result" where
  "validateCSV file options =
     (let failure = (\<lambda>e. \<lparr>isValid = False, errors = [''Failed to read CSV: '' @ message e],
                           rowCount = 0, columns = []\<rparr>)
      in case readCSV file options of
           Inl e \<Rightarrow> failure e
         | Inr data \<Rightarrow>
             (let cols = (case data of [] \<Rightarrow> [] | first # _ \<Rightarrow> map fst first);
                  errs = count_errors options data cols
              in case (case requiredFields options of
                         None \<Rightarrow> Inr errs
                       | Some required \<Rightarrow> check_rows data 0 required errs) of
                   Inl e \<Rightarrow> failure e
                 | Inr errs' \<Rightarrow>
                     \<lparr>isValid = (length errs' = 0), errors = errs',
                      rowCount = length data, columns = cols\<rparr>))"

section \<open>The properties, in the words of the specification\<close>

subsection \<open>The Luhn sum\<close>

text \<open>
  The specification's Luhn sum: traverse the digits from right to left; the digit at
  position \<open>i\<close> (counted from the rightmost, from 0) is doubled when \<open>i\<close> is odd, 9 is
  subtracted from a doubled value that exceeds 9, and the values are added up.
  \<open>spec_luhn_from i ds\<close> adds the digits \<open>ds\<close>, given from right to left, the first of
  them at position \<open>i\<close>.
\<close>

fun spec_luhn_from :: "nat \<Rightarrow> string \<Rightarrow> nat" where
  "spec_luhn_from i [] = 0"
| "spec_luhn_from i (c # cs) =
     (let d = of_char c - 48;
          v = (if odd i then (if 2 * d > 9 then 2 * d - 9 else 2 * d) else d)
      in v + spec_luhn_from (i + 1) cs)"

definition spec_luhn_sum :: "string \<Rightarrow> nat" where
  "spec_luhn_sum ds = spec_luhn_from 0 (rev ds)"

text \<open>The same sum with the parity of the position as a flag, for the proofs.\<close>

definition luhn_digit :: "bool \<Rightarrow> char \<Rightarrow> nat" where
  "luhn_digit dbl c =
     (let d = of_char c - 48 in if dbl then (if d * 2 > 9 then d * 2 - 9 else d * 2) else d)"

fun luhn_sum :: "bool \<Rightarrow> string \<Rightarrow> nat" where
  "luhn_sum dbl [] = 0"
| "luhn_sum dbl (c # cs) = luhn_digit dbl c + luhn_sum (\<not> dbl) cs"

subsection \<open>Quoting a field\<close>


fun double_quotes :: "string \<Rightarrow> string" where
  "double_quotes [] = []"
| "double_quotes (c # cs) = (if c = dquote then dquote # dquote # double_quotes cs else c # double_quotes cs)"

subsection \<open>The fields of a line\<close>

text \<open>
  Every character of a line has one role, found by reading the line from left to right.
  A double quote is never part of a field by itself: outside a quoted section it opens
  one; inside a quoted section it closes the section, unless another double quote
  follows it, in which case the two stand for one double quote of the field (the first
  is a mark, the second is kept). A delimiter outside a quoted section separates two
  fields. Every other character is kept.
\<close>

datatype role = Kept | Quoting | Separator

fun roles :: "string \<Rightarrow> bool \<Rightarrow> string \<Rightarrow> role list" where
  "roles delim quoted [] = []"
| "roles delim True (c # rest) =
     (if c = dquote then
        (case rest of
           c' # rest' \<Rightarrow>
             if c' = dquote then Quoting # Kept # roles delim True rest'
             else Quoting # roles delim False rest
         | [] \<Rightarrow> [Quoting])
      else Kept # roles delim True rest)"
| "roles delim False (c # rest) =
     (if c = dquote then Quoting # roles delim True rest
      else if [c] = delim then Separator # roles delim False rest
      else Kept # roles delim False rest)"

text \<open>The characters of a line, each with its role.\<close>

definition line_roles :: "string \<Rightarrow> string \<Rightarrow> (char \<times> role) list" where
  "line_roles delim line = zip line (roles delim False line)"

text \<open>
  The raw fields: the kept characters in their order, split at the separators.
\<close>

fun raw_fields :: "(char \<times> role) list \<Rightarrow> string list" where
  "raw_fields [] = [[]]"
| "raw_fields ((c, Kept) # zs) = (c # hd (raw_fields zs)) # tl (raw_fields zs)"
| "raw_fields ((c, Quoting) # zs) = raw_fields zs"
| "raw_fields ((c, Separator) # zs) = [] # raw_fields zs"

text \<open>The fields of a line: the raw fields without the white space at their two ends.\<close>

definition spec_fields :: "string \<Rightarrow> string \<Rightarrow> string list" where
  "spec_fields delim line = map trim (raw_fields (line_roles delim line))"

text \<open>
  The column names are the fields of the first line, or, without a header line, the
  names \<open>column_0\<close>, \<open>column_1\<close>, ..., one for each field of the first line. The data
  lines are the lines after the header line, or all lines when there is none.
\<close>

definition column_names :: "'a csv_options_scheme \<Rightarrow> string \<Rightarrow> string list" where
  "column_names options first =
     (if opt_hasHeaders options then spec_fields (opt_delimiter options) first
      else map (\<lambda>i. ''column_'' @ toString i)
             [0..<length (spec_fields (opt_delimiter options) first)])"

definition data_lines :: "'a csv_options_scheme \<Rightarrow> string list \<Rightarrow> string list" where
  "data_lines options lines = (if opt_hasHeaders options then tl lines else lines)"

subsection \<open>Tables that survive a round trip\<close>

text \<open>
  A cell is plain when trimming leaves it unchanged and it holds no line feed. The
  column names are in key order when they are distinct, none is \<open>__proto__\<close>, and
  every name that is an array index comes before the names that are not, in ascending
  order: the order in which \<open>Object.keys\<close> lists the keys of an object.
\<close>

definition plain_cell :: "string \<Rightarrow> bool" where
  "plain_cell s = (trim s = s \<and> LF \<notin> set s)"

definition key_order_ok :: "string list \<Rightarrow> bool" where
  "key_order_ok ks =
     (distinct ks \<and> ''__proto__'' \<notin> set ks
      \<and> sorted_wrt (\<lambda>a b. is_array_index b \<longrightarrow>
                         is_array_index a \<and> digits_value a < digits_value b) ks)"

text \<open>
  A table with the column names \<open>cols\<close>: at least one column, every row has exactly
  these keys in this order, and names and values are plain.
\<close>

definition table_ok :: "string list \<Rightarrow> row list \<Rightarrow> bool" where
  "table_ok cols data =
     (key_order_ok cols \<and> cols \<noteq> [] \<and> list_all plain_cell cols
      \<and> list_all (\<lambda>row. map fst row = cols \<and> list_all plain_cell (map snd row)) data)"

text \<open>
  No line of the serialised table is blank: there are two columns or more (the line then
  holds a delimiter), or no name and no value is empty.
\<close>

definition no_blank_line :: "string list \<Rightarrow> row list \<Rightarrow> bool" where
  "no_blank_line cols data =
     (2 \<le> length cols
      \<or> ([] \<notin> set cols \<and> list_all (\<lambda>row. [] \<notin> set (map snd row)) data))"

text \<open>
  The line \<open>stringifyCSV\<close> writes for the fields \<open>vs\<close> with the delimiter \<open>d\<close>. A line
  is unbroken when \<open>split(/\r?\n/)\<close> neither splits it nor takes a CR off its end.
\<close>

definition unbroken :: "string \<Rightarrow> bool" where
  "unbroken l = (LF \<notin> set l \<and> (l = [] \<or> last l \<noteq> CR))"

definition line_of :: "char \<Rightarrow> string list \<Rightarrow> string" where
  "line_of d vs = join [d] (map (\<lambda>v. escapeField v [d]) vs)"

subsection \<open>The errors of the required fields\<close>

text \<open>
  A required field is missing in a row when the row has no such property or its value
  is empty or blank. \<open>required_errors\<close> lists the messages for the rows \<open>rows\<close>, the
  first of them with the index \<open>i\<close>: row by row, and for each row field by field.
\<close>

definition field_missing :: "row \<Rightarrow> string \<Rightarrow> bool" where
  "field_missing row field =
     (case map_of row field of None \<Rightarrow> True | Some v \<Rightarrow> v = [] \<or> trim v = [])"

definition required_errors :: "row list \<Rightarrow> nat \<Rightarrow> string list \<Rightarrow> string list" where
  "required_errors rows i required =
     concat (map (\<lambda>(j, row). map (missing_field_message j) (filter (field_missing row) required))
               (zip [i..<i + length rows] rows))"

section \<open>Verification\<close>

subsection \<open>Characters\<close>

lemma char_eq_of_char: "(c = d) = ((of_char c :: nat) = of_char d)"
  by simp

lemma is_digit_iff: "is_digit c = (c \<in> set ''0123456789'')"
  unfolding is_digit_def
  by (simp add: char_eq_of_char [of c] del: of_char_eq_iff) arith

lemma digit_char_eval:
  "digit_char 0 = CHR ''0''" "digit_char 1 = CHR ''1''" "digit_char (Suc 0) = CHR ''1''"
  "digit_char 2 = CHR ''2''" "digit_char 3 = CHR ''3''" "digit_char 4 = CHR ''4''"
  "digit_char 5 = CHR ''5''" "digit_char 6 = CHR ''6''" "digit_char 7 = CHR ''7''"
  "digit_char 8 = CHR ''8''" "digit_char 9 = CHR ''9''"
  by (rule of_char_eqI [where ?'a = nat], simp add: digit_char_def)+

lemmas toString_eval = toString.simps digit_char_eval

lemma toString_digit: "d < 10 \<Longrightarrow> toString d = [digit_char d]"
  by (simp add: toString.simps)

lemma is_digit_digit_char: "d < 10 \<Longrightarrow> is_digit (digit_char d)"
  by (simp add: is_digit_def digit_char_def)

subsection \<open>The Luhn check\<close>

lemma luhn_digit_digit_char: "d < 10 \<Longrightarrow> luhn_digit False (digit_char d) = d"
  by (simp add: luhn_digit_def digit_char_def)

lemma luhnLoop_digits:
  "list_all is_digit xs \<Longrightarrow> luhnLoop xs (Some a) e = Some (a + luhn_sum e xs)"
  by (induction xs arbitrary: a e) (auto simp: parseInt_def luhn_digit_def Let_def)

lemma spec_luhn_from_parity: "spec_luhn_from i xs = luhn_sum (odd i) xs"
  by (induction xs arbitrary: i) (auto simp: luhn_digit_def Let_def mult.commute)

lemma luhnCheck_digits:
  "list_all is_digit ds \<Longrightarrow> luhnCheck ds = (luhn_sum False (rev ds) mod 10 = 0)"
  by (simp add: luhnCheck_def luhnLoop_digits)

lemma luhnCheck_append_digit:
  assumes "list_all is_digit s" "d < 10"
  shows "luhnCheck (s @ toString d) = ((d + luhn_sum True (rev s)) mod 10 = 0)"
  using assms
  by (simp add: luhnCheck_digits toString_digit is_digit_digit_char luhn_digit_digit_char)

lemma check_digit_iff:
  assumes "d < 10"
  shows "((d + (r::nat)) mod 10 = 0) = (d = (10 - r mod 10) mod 10)"
proof -
  define m where "m = r mod 10"
  have m: "m < 10" by (simp add: m_def)
  have "(d + r) mod 10 = (d + m) mod 10"
    unfolding m_def by (simp add: mod_add_right_eq)
  moreover have "(d + m) mod 10 = (if d + m < 10 then d + m else d + m - 10)"
    using assms m by (simp add: mod_if)
  moreover have "(10 - m) mod 10 = (if m = 0 then 0 else 10 - m)"
    using m by simp
  ultimately show ?thesis
    using assms m unfolding m_def [symmetric] by (simp split: if_splits) linarith
qed

lemma checkDigitLoop_first:
  assumes "d \<le> 9" "luhnCheck (s @ toString d)"
    and "\<And>j. k \<le> j \<Longrightarrow> j < d \<Longrightarrow> \<not> luhnCheck (s @ toString j)"
    and "k \<le> d"
  shows "checkDigitLoop s k = Some d"
  using assms
proof (induction "d - k" arbitrary: k)
  case 0
  then show ?case by (subst checkDigitLoop.simps) simp
next
  case (Suc n)
  then have "k < d" by simp
  with Suc.prems have nk: "\<not> luhnCheck (s @ toString k)" by simp
  have "checkDigitLoop s (k + 1) = Some d"
    using Suc by (intro Suc.hyps(1)) auto
  with nk \<open>k < d\<close> \<open>d \<le> 9\<close> show ?case
    by (subst checkDigitLoop.simps) simp
qed

text \<open>The check digit of a string of digits: the only digit that passes, found by the loop.\<close>

lemma check_digit_found:
  assumes "list_all is_digit s"
  defines "d \<equiv> (10 - luhn_sum True (rev s) mod 10) mod 10"
  shows "d < 10" and "luhnCheck (s @ toString d)"
    and "\<And>j. j < 10 \<Longrightarrow> luhnCheck (s @ toString j) \<Longrightarrow> j = d"
    and "checkDigitLoop s 0 = Some d"
    and "calculateLuhnCheckDigit s = toString d"
proof -
  show d: "d < 10" by (simp add: d_def)
  show pass: "luhnCheck (s @ toString d)"
    using assms(1) d by (simp add: luhnCheck_append_digit check_digit_iff d_def)
  show uniq: "j = d" if "j < 10" "luhnCheck (s @ toString j)" for j
    using that assms(1) by (simp add: luhnCheck_append_digit check_digit_iff d_def)
  show loop: "checkDigitLoop s 0 = Some d"
  proof (rule checkDigitLoop_first)
    show "d \<le> 9" using d by simp
    show "luhnCheck (s @ toString d)" by (rule pass)
    show "\<not> luhnCheck (s @ toString j)" if "0 \<le> j" "j < d" for j
      using uniq [of j] that d by auto
    show "0 \<le> d" by simp
  qed
  show "calculateLuhnCheckDigit s = toString d"
    by (simp add: calculateLuhnCheckDigit_def loop)
qed

text \<open>
  Claim C3. \<open>isValidCardNumber\<close> removes every character that is not a digit, returns
  false when the number of digits left is outside 13..19, and otherwise returns true
  exactly when the specification's Luhn sum of those digits is a multiple of 10. It
  accepts 4111111111111111 and rejects 4111111111111112, 123 and the empty string.
\<close>

theorem isValidCardNumber_luhn:
  "strip_non_digits s = filter (\<lambda>c. c \<in> set ''0123456789'') s
   \<and> isValidCardNumber s =
       (if length (strip_non_digits s) < 13 \<or> 19 < length (strip_non_digits s) then False
        else spec_luhn_sum (strip_non_digits s) mod 10 = 0)
   \<and> isValidCardNumber ''4111111111111111''
   \<and> \<not> isValidCardNumber ''4111111111111112''
   \<and> \<not> isValidCardNumber ''123''
   \<and> \<not> isValidCardNumber []"
proof -
  have strip: "strip_non_digits s = filter (\<lambda>c. c \<in> set ''0123456789'') s"
    unfolding strip_non_digits_def by (rule filter_cong) (simp_all only: is_digit_iff)
  have digits: "list_all is_digit (strip_non_digits s)"
    by (simp add: strip_non_digits_def list_all_iff)
  have general: "isValidCardNumber s =
       (if length (strip_non_digits s) < 13 \<or> 19 < length (strip_non_digits s) then False
        else spec_luhn_sum (strip_non_digits s) mod 10 = 0)"
    using luhnCheck_digits [OF digits]
    by (simp add: isValidCardNumber_def Let_def spec_luhn_sum_def spec_luhn_from_parity)
  have e1: "isValidCardNumber ''4111111111111111''"
    by (simp add: isValidCardNumber_def strip_non_digits_def is_digit_def luhnCheck_def parseInt_def)
  have e2: "\<not> isValidCardNumber ''4111111111111112''"
    by (simp add: isValidCardNumber_def strip_non_digits_def is_digit_def luhnCheck_def parseInt_def)
  have e3: "\<not> isValidCardNumber ''123''"
    by (simp add: isValidCardNumber_def strip_non_digits_def is_digit_def)
  have e4: "\<not> isValidCardNumber []"
    by (simp add: isValidCardNumber_def strip_non_digits_def)
  from strip general e1 e2 e3 e4 show ?thesis by blast
qed

text \<open>
  Claim C4. For every string of digits exactly one digit from 0 to 9, appended to the
  string, passes the Luhn check; the loop of \<open>calculateLuhnCheckDigit\<close> finds that digit
  and never falls through, and the function returns it.
\<close>

theorem calculateLuhnCheckDigit_unique:
  assumes "list_all is_digit s"
  shows "\<exists>d. d \<le> 9 \<and> luhnCheck (s @ toString d)
           \<and> (\<forall>j. j \<le> 9 \<and> luhnCheck (s @ toString j) \<longrightarrow> j = d)
           \<and> checkDigitLoop s 0 = Some d
           \<and> calculateLuhnCheckDigit s = toString d"
proof -
  let ?d = "(10 - luhn_sum True (rev s) mod 10) mod 10"
  note found = check_digit_found [OF assms]
  have "?d \<le> 9" using found(1) by simp
  moreover have "\<forall>j. j \<le> 9 \<and> luhnCheck (s @ toString j) \<longrightarrow> j = ?d"
    using found(3) by (simp add: le_less_Suc_eq)
  ultimately show ?thesis
    using found(2,4,5) by blast
qed

theorem calculateLuhnCheckDigit_unique_witness:
  "list_all is_digit ''411111111111111''
   \<and> luhnCheck (''411111111111111'' @ ''1'')
   \<and> checkDigitLoop ''411111111111111'' 0 = Some 1
   \<and> calculateLuhnCheckDigit ''411111111111111'' = ''1''"
proof -
  have digits: "list_all is_digit ''411111111111111''"
    by (simp add: is_digit_def)
  have one: "toString 1 = ''1''" "toString (Suc 0) = ''1''"
    by (simp_all add: toString_eval)
  have pass: "luhnCheck (''411111111111111'' @ toString 1)"
    by (simp add: one luhnCheck_def parseInt_def is_digit_def)
  from calculateLuhnCheckDigit_unique [OF digits] obtain d where
    d: "\<forall>j. j \<le> 9 \<and> luhnCheck (''411111111111111'' @ toString j) \<longrightarrow> j = d"
      "checkDigitLoop ''411111111111111'' 0 = Some d"
      "calculateLuhnCheckDigit ''411111111111111'' = toString d"
    by blast
  have "(1::nat) \<le> 9" by simp
  with d(1) pass have "1 = d" by blast
  with d(2,3) digits pass show ?thesis by (simp add: one)
qed

subsection \<open>Generated card numbers\<close>

lemma randomInt_ok:
  assumes "lo \<le> hi"
  shows "\<exists>r. randomInt rnd p lo hi = Inr (r, p + 1) \<and> lo \<le> r \<and> r \<le> hi"
proof -
  have "rnd p mod (hi - lo + 1) < hi - lo + 1" by simp
  with assms have "rnd p mod (hi - lo + 1) + lo \<le> hi" by linarith
  with assms show ?thesis by (simp add: randomInt_def)
qed

lemma randomElement_ok:
  assumes "xs \<noteq> []"
  shows "\<exists>x. randomElement rnd p xs = Inr (x, p + 1) \<and> x \<in> set xs"
proof -
  from randomInt_ok [of 0 "length xs - 1" rnd p] obtain r where
    r: "randomInt rnd p 0 (length xs - 1) = Inr (r, p + 1)" "r \<le> length xs - 1"
    by auto
  with assms have "r < length xs" by (cases xs) auto
  with r assms show ?thesis by (simp add: randomElement_def)
qed

lemma appendRandomDigits_ok:
  "\<exists>ds p'. appendRandomDigits rnd p num n = Inr (num @ ds, p')
     \<and> length ds = n \<and> list_all is_digit ds"
proof (induction n arbitrary: p num)
  case 0
  then show ?case by simp
next
  case (Suc n)
  from randomInt_ok [of 0 9 rnd p] obtain r where
    r: "randomInt rnd p 0 9 = Inr (r, p + 1)" "r \<le> 9" by auto
  from Suc [of "p + 1" "num @ toString r"] obtain ds p' where
    ds: "appendRandomDigits rnd (p + 1) (num @ toString r) n = Inr ((num @ toString r) @ ds, p')"
      "length ds = n" "list_all is_digit ds" by blast
  have "appendRandomDigits rnd p num (Suc n) = Inr (num @ (toString r @ ds), p')"
    using r ds by simp
  moreover have "length (toString r @ ds) = Suc n" "list_all is_digit (toString r @ ds)"
    using r ds by (simp_all add: toString_digit is_digit_digit_char)
  ultimately show ?case by blast
qed


lemma generateFrom_ok:
  assumes "prefixes \<noteq> []"
    and "list_all (\<lambda>prefix. list_all is_digit prefix \<and> length prefix < len) prefixes"
  shows "\<exists>s p'. generateFrom rnd p prefixes len checked = Inr (s, p')
           \<and> length s = len \<and> list_all is_digit s
           \<and> list_ex (\<lambda>prefix. startsWith s prefix) prefixes
           \<and> (if checked then luhnCheck s else True)"
proof -
  from randomElement_ok [OF assms(1), of rnd p] obtain prefix where
    prefix: "randomElement rnd p prefixes = Inr (prefix, p + 1)" "prefix \<in> set prefixes"
    by blast
  with assms(2) have pd: "list_all is_digit prefix" and pl: "length prefix < len"
    by (auto simp: list_all_iff)
  define n where "n = nat (int len - int (length prefix) - 1)"
  from pl have n: "length prefix + n + 1 = len" by (simp add: n_def)
  from appendRandomDigits_ok [of rnd "p + 1" prefix n] obtain ds p2 where
    ds: "appendRandomDigits rnd (p + 1) prefix n = Inr (prefix @ ds, p2)"
      "length ds = n" "list_all is_digit ds" by blast
  let ?num = "prefix @ ds"
  have numd: "list_all is_digit ?num" using pd ds by simp
  have sw: "startsWith (?num @ x) prefix" for x by (simp add: startsWith_def)
  show ?thesis
  proof (cases checked)
    case True
    define d where "d = (10 - luhn_sum True (rev ?num) mod 10) mod 10"
    note found = check_digit_found [OF numd, folded d_def]
    have "generateFrom rnd p prefixes len checked = Inr (?num @ toString d, p2)"
      using prefix ds True found(5) by (simp add: generateFrom_def n_def)
    moreover have "length (?num @ toString d) = len"
      using n ds found(1) by (simp add: toString_digit)
    moreover have "list_all is_digit (?num @ toString d)"
      using numd found(1) by (simp add: toString_digit is_digit_digit_char)
    moreover have "list_ex (\<lambda>q. startsWith (?num @ toString d) q) prefixes"
      using prefix(2) sw by (auto simp: list_ex_iff)
    ultimately show ?thesis using found(2) True by auto
  next
    case False
    from randomInt_ok [of 0 9 rnd p2] obtain r where
      r: "randomInt rnd p2 0 9 = Inr (r, p2 + 1)" "r \<le> 9" by auto
    have "generateFrom rnd p prefixes len checked = Inr (?num @ toString r, p2 + 1)"
      using prefix ds False r by (simp add: generateFrom_def n_def)
    moreover have "length (?num @ toString r) = len"
      using n ds r by (simp add: toString_digit)
    moreover have "list_all is_digit (?num @ toString r)"
      using numd r by (simp add: toString_digit is_digit_digit_char)
    moreover have "list_ex (\<lambda>q. startsWith (?num @ toString r) q) prefixes"
      using prefix(2) sw by (auto simp: list_ex_iff)
    ultimately show ?thesis using False by auto
  qed
qed

lemmas card_tables = CARD_PREFIXES_def CARD_LENGTHS_def CVC_LENGTHS_def get_prop_def is_digit_def




lemma generateExpiry_ok:
  "1 \<le> yearsAhead \<Longrightarrow> \<exists>e p'. generateExpiry rnd p year yearsAhead = Inr (e, p')"
proof -
  assume a: "1 \<le> yearsAhead"
  from randomInt_ok [OF a, of rnd p] obtain r where
    r: "randomInt rnd p 1 yearsAhead = Inr (r, p + 1)" by blast
  from randomInt_ok [of 1 12 rnd "p + 1"] obtain m where
    m: "randomInt rnd (p + 1) 1 12 = Inr (m, p + 1 + 1)" by auto
  show ?thesis using r m by (simp add: generateExpiry_def)
qed

lemma generateCardNumber_fallback:
  assumes "ctype options = Some t"
    and "t \<notin> {''visa'', ''mastercard'', ''amex'', ''discover''}" and "\<not> inherited t"
  shows "\<exists>s p'. generateCardNumber rnd p options = Inr (s, p')
           \<and> length s = 16 \<and> list_all is_digit s \<and> startsWith s ''4''"
proof -
  define chk where "chk = (case valid options of None \<Rightarrow> True | Some b \<Rightarrow> b)"
  have look: "get_prop CARD_PREFIXES t = Absent" "get_prop CARD_LENGTHS t = Absent"
    using assms(2,3) by (auto simp: card_tables)
  have gen: "generateCardNumber rnd p options = generateFrom rnd p [''4''] 16 chk"
    using look assms(1) by (simp add: generateCardNumber_def chk_def CARD_PREFIXES_def)
  have "list_all (\<lambda>prefix. list_all is_digit prefix \<and> length prefix < 16) [''4'']"
    by (simp add: is_digit_def)
  from generateFrom_ok [OF _ this, of rnd p chk] gen show ?thesis by auto
qed

lemma generateCard_fallback:
  assumes "ctype options = Some t"
    and "t \<notin> {''visa'', ''mastercard'', ''amex'', ''discover''}" and "\<not> inherited t"
  shows "\<exists>c p'. generateCard rnd p year options = Inr (c, p')
           \<and> length (number c) = 16 \<and> list_all is_digit (number c)
           \<and> startsWith (number c) ''4'' \<and> length (cvc c) = 3"
proof -
  from generateCardNumber_fallback [OF assms, of rnd p] obtain s p1 where
    s: "generateCardNumber rnd p options = Inr (s, p1)" "length s = 16" "list_all is_digit s"
      "startsWith s ''4''"
    by blast
  from generateExpiry_ok [of 3 rnd p1 year] obtain e p2 where
    e: "generateExpiry rnd p1 year 3 = Inr (e, p2)" by auto
  from appendRandomDigits_ok [of rnd p2 "[]" 3] obtain cv p3 where
    cv: "generateCVC rnd p2 3 = Inr (cv, p3)" "length cv = 3"
    by (auto simp: generateCVC_def)
  have "(case get_prop CVC_LENGTHS (if t = [] then ''visa'' else t) of
           Own n \<Rightarrow> if n = 0 then 3 else n | Absent \<Rightarrow> 3 | Inherited \<Rightarrow> 0) = 3"
    using assms(2,3) by (auto simp: card_tables)
  with s e cv assms(1) show ?thesis by (simp add: generateCard_def)
qed

text \<open>
  Claim C10. The fallback for an unknown card type is missed on a type string that
  names a member inherited from \<open>Object.prototype\<close>: \<open>CARD_PREFIXES['toString']\<close> is a
  function, so \<open>CARD_PREFIXES[type] || CARD_PREFIXES['visa']\<close> does not fall back, and
  both \<open>generateCardNumber\<close> and \<open>generateCard\<close> throw. For the other unknown type
  strings the fallback is taken (lemmas \<open>generateCardNumber_fallback\<close> and
  \<open>generateCard_fallback\<close>).
\<close>

theorem card_type_toString_throws:
  "generateCardNumber (\<lambda>i. 0) 0 \<lparr>ctype = Some ''toString'', valid = None\<rparr>
     = Inl (Error ''Cannot get random element from empty array'')
   \<and> generateCard (\<lambda>i. 0) 0 2026 \<lparr>ctype = Some ''toString'', valid = None\<rparr>
     = Inl (Error ''Cannot get random element from empty array'')"
  by (simp add: generateCard_def generateCardNumber_def get_prop_def inherited_def
      CARD_PREFIXES_def OBJECT_PROTOTYPE_def)

text \<open>The same for every random sequence, and for every inherited name.\<close>

lemma generateCardNumber_inherited_throws:
  assumes "ctype options = Some t" "inherited t"
  shows "\<exists>e. generateCardNumber rnd p options = Inl e"
    and "\<exists>e. generateCard rnd p year options = Inl e"
proof -
  from assms(2) have "get_prop CARD_PREFIXES t = Inherited"
    by (auto simp: inherited_def OBJECT_PROTOTYPE_def get_prop_def CARD_PREFIXES_def)
  with assms(1) show n: "\<exists>e. generateCardNumber rnd p options = Inl e"
    by (auto simp: generateCardNumber_def split: option.splits nat.splits)
  then show "\<exists>e. generateCard rnd p year options = Inl e"
    by (auto simp: generateCard_def Let_def)
qed

text \<open>
  Claim C6. \<open>maskCardNumber\<close> throws on an input with fewer digits than the digits to
  show: for 123 and the default of 4 visible digits \<open>'*'.repeat(-1)\<close> raises a
  \<open>RangeError\<close>.
\<close>

theorem maskCardNumber_short_throws:
  "maskCardNumber ''123'' 4 = Inl (RangeError ''Invalid count value: -1'')"
  by (simp add: maskCardNumber_def strip_non_digits_def is_digit_def toString_int_def
      toString_eval)

text \<open>For an integer number of visible digits, this is the only way to fail.\<close>

lemma maskCardNumber_returns_iff:
  "(\<exists>s. maskCardNumber num visibleDigits = Inr s)
     = (visibleDigits \<le> int (length (strip_non_digits num)))"
  by (auto simp: maskCardNumber_def Let_def)

subsection \<open>Escaping\<close>



lemma js_includes_single: "js_includes v [d] = (d \<in> set v)"
  by (induction v) (auto simp: startsWith_def)

lemma escaped_double_quotes:
  "concat (map (\<lambda>c. if c = dquote then [dquote, dquote] else [c]) v) = double_quotes v"
  by (induction v) auto


subsection \<open>Parsing a line\<close>

lemma parseLoop_quoted_escaped:
  "parseLoop d r cur True (dquote # dquote # rest) = parseLoop d r (cur @ [dquote]) True rest"
  by simp

lemma parseLoop_quoted_end:
  "rest = [] \<or> hd rest \<noteq> dquote \<Longrightarrow>
     parseLoop d r cur True (dquote # rest) = parseLoop d r cur False rest"
  by (cases rest) simp_all

lemma parseLoop_quoted_char:
  "c \<noteq> dquote \<Longrightarrow> parseLoop d r cur True (c # rest) = parseLoop d r (cur @ [c]) True rest"
  by simp

lemma parseLoop_open:
  "parseLoop d r cur False (dquote # rest) = parseLoop d r cur True rest"
  by simp

lemma parseLoop_delim:
  "c \<noteq> dquote \<Longrightarrow> [c] = d \<Longrightarrow>
     parseLoop d r cur False (c # rest) = parseLoop d (r @ [trim cur]) [] False rest"
  by simp

lemma parseLoop_char:
  "c \<noteq> dquote \<Longrightarrow> [c] \<noteq> d \<Longrightarrow>
     parseLoop d r cur False (c # rest) = parseLoop d r (cur @ [c]) False rest"
  by simp

declare parseLoop.simps(2) [simp del]

lemma roles_length: "length (roles delim quoted line) = length line"
  by (induction delim quoted line rule: roles.induct) (simp_all split: list.splits)

lemma line_roles_chars: "map fst (line_roles delim line) = line"
  by (simp add: line_roles_def roles_length)

lemma raw_fields_not_Nil: "raw_fields zs \<noteq> []"
  by (induction zs rule: raw_fields.induct) simp_all

lemma raw_fields_concat:
  "concat (raw_fields zs) = map fst (filter (\<lambda>(c, r). r = Kept) zs)"
proof (induction zs rule: raw_fields.induct)
  case (2 c zs)
  have "concat ((c # hd (raw_fields zs)) # tl (raw_fields zs))
      = c # concat (hd (raw_fields zs) # tl (raw_fields zs))"
    by simp
  also have "hd (raw_fields zs) # tl (raw_fields zs) = raw_fields zs"
    using raw_fields_not_Nil [of zs] by simp
  finally show ?case using 2 by simp
qed simp_all

lemma raw_fields_length:
  "length (raw_fields zs) = Suc (length (filter (\<lambda>(c, r). r = Separator) zs))"
proof (induction zs rule: raw_fields.induct)
  case (2 c zs)
  have "length (tl (raw_fields zs)) = length (raw_fields zs) - 1" by simp
  with 2 show ?case by simp
qed simp_all

lemma map_trim_hd_tl: "xs \<noteq> [] \<Longrightarrow> trim (hd xs) # map trim (tl xs) = map trim xs"
  by (cases xs) simp_all

lemma parseLoop_roles:
  "parseLoop delim result current quoted rest
     = result @ trim (current @ hd (raw_fields (zip rest (roles delim quoted rest))))
         # map trim (tl (raw_fields (zip rest (roles delim quoted rest))))"
proof (induction delim result current quoted rest rule: parseLoop.induct)
  case (1 delim result current inQuotes)
  then show ?case by simp
next
  case (2 delim result current inQuotes c rest)
  show ?case
  proof (cases inQuotes)
    case True
    show ?thesis
    proof (cases "c = dquote")
      case cq: True
      show ?thesis
      proof (cases rest)
        case Nil
        with True cq show ?thesis
          by (simp add: parseLoop_quoted_end)
      next
        case (Cons nextChar rest')
        show ?thesis
        proof (cases "nextChar = dquote")
          case nq: True
          with 2(2) [OF True cq Cons] True cq Cons show ?thesis
            by (simp add: parseLoop_quoted_escaped)
        next
          case nq: False
          with 2(3) [OF True cq Cons] True cq Cons show ?thesis
            by (simp add: parseLoop_quoted_end)
        qed
      qed
    next
      case cq: False
      with 2(4) [OF True] True show ?thesis
        by (simp add: parseLoop_quoted_char)
    qed
  next
    case False
    show ?thesis
    proof (cases "c = dquote")
      case cq: True
      with 2(5) [OF False] False show ?thesis
        by (simp add: parseLoop_open)
    next
      case cq: False
      show ?thesis
      proof (cases "[c] = delim")
        case True
        with 2(6) [OF False cq True] True False cq show ?thesis
          by (simp add: parseLoop_delim map_trim_hd_tl raw_fields_not_Nil)
      next
        case nd: False
        with 2(7) [OF False cq] False cq show ?thesis
          by (simp add: parseLoop_char)
      qed
    qed
  qed
qed

lemma parseLine_spec_fields: "parseLine line delim = spec_fields delim line"
proof -
  show ?thesis
    by (simp add: parseLine_def spec_fields_def parseLoop_roles line_roles_def
        map_trim_hd_tl raw_fields_not_Nil)
qed

lemma trim_ends:
  "\<exists>a b. s = a @ trim s @ b \<and> list_all is_space a \<and> list_all is_space b"
proof -
  let ?a = "takeWhile is_space s"
  let ?m = "dropWhile is_space s"
  let ?b = "rev (takeWhile is_space (rev ?m))"
  have "rev (rev ?m) = rev (takeWhile is_space (rev ?m) @ dropWhile is_space (rev ?m))"
    by (simp only: takeWhile_dropWhile_id)
  then have m: "?m = trim s @ ?b"
    by (simp only: rev_rev_ident rev_append trim_def)
  have "s = ?a @ ?m" by simp
  with m have "s = ?a @ trim s @ ?b" by simp
  moreover have "list_all is_space ?a" "list_all is_space ?b"
    by (auto simp: list_all_iff dest: set_takeWhileD)
  ultimately show ?thesis by blast
qed

lemma trim_tight:
  "trim s = [] \<or> (\<not> is_space (hd (trim s)) \<and> \<not> is_space (last (trim s)))"
proof (cases "trim s = []")
  case False
  let ?m = "dropWhile is_space s"
  let ?r = "dropWhile is_space (rev ?m)"
  from False have r: "?r \<noteq> []" by (simp add: trim_def)
  then have l: "\<not> is_space (hd ?r)" by (rule hd_dropWhile)
  have t: "trim s = rev ?r" by (simp add: trim_def)
  from r have "last (trim s) = hd ?r" unfolding t by (simp add: last_rev)
  with l have last: "\<not> is_space (last (trim s))" by simp
  from r have mne: "?m \<noteq> []" by (metis dropWhile.simps(1) rev.simps(1))
  then have hm: "\<not> is_space (hd ?m)" by (rule hd_dropWhile)
  from trim_ends [of ?m] obtain a b where
    ab: "?m = a @ trim ?m @ b" "list_all is_space a" by blast
  have tm: "trim ?m = trim s" by (simp add: trim_def)
  have "a = []"
  proof (rule ccontr)
    assume "a \<noteq> []"
    then have "hd ?m = hd a" using ab(1) by (metis hd_append2)
    moreover have "is_space (hd a)" using ab(2) \<open>a \<noteq> []\<close> by (cases a) simp_all
    ultimately show False using hm by simp
  qed
  with ab(1) tm have "?m = trim s @ b" by simp
  with False have "hd ?m = hd (trim s)" by (metis hd_append2)
  with hm last show ?thesis by simp
qed simp

subsection \<open>Building a row\<close>

lemma map_of_insert_index:
  "map_of (insert_index k v obj) = (map_of obj)(k \<mapsto> v)"
  if "k \<notin> fst ` set obj"
  using that
proof (induction obj)
  case Nil
  then show ?case by simp
next
  case (Cons a obj)
  obtain k' v' where a: "a = (k', v')" by (cases a)
  with Cons show ?case by (auto simp: fun_upd_twist)
qed

lemma keys_insert_index:
  "fst ` set (insert_index k v obj) = insert k (fst ` set obj)"
proof (induction obj)
  case Nil
  then show ?case by simp
next
  case (Cons a obj)
  obtain k' v' where a: "a = (k', v')" by (cases a)
  with Cons show ?case by (cases "is_array_index k' \<and> digits_value k' < digits_value k") auto
qed

lemma distinct_insert_index:
  "k \<notin> fst ` set obj \<Longrightarrow> distinct (map fst obj) \<Longrightarrow> distinct (map fst (insert_index k v obj))"
proof (induction obj)
  case Nil
  then show ?case by simp
next
  case (Cons a obj)
  obtain k' v' where a: "a = (k', v')" by (cases a)
  from Cons a keys_insert_index [of k v obj] show ?case
    by (cases "is_array_index k' \<and> digits_value k' < digits_value k") auto
qed

lemma map_of_set_prop:
  "''__proto__'' \<noteq> k \<Longrightarrow> map_of (set_prop obj k v) = (map_of obj)(k \<mapsto> v)"
  by (auto simp: set_prop_def map_of_insert_index update_conv')

lemma keys_update: "fst ` set (AList.update k v obj) = insert k (fst ` set obj)"
  by (induction obj) auto

lemma keys_set_prop:
  "''__proto__'' \<noteq> k \<Longrightarrow> fst ` set (set_prop obj k v) = insert k (fst ` set obj)"
  by (auto simp: set_prop_def keys_insert_index keys_update)

lemma distinct_set_prop:
  "distinct (map fst obj) \<Longrightarrow> distinct (map fst (set_prop obj k v))"
  by (simp add: set_prop_def distinct_insert_index distinct_update)


lemma zip_upt_snoc:
  "zip [0..<length (hs @ [h])] (hs @ [h]) = zip [0..<length hs] hs @ [(length hs, h)]"
  by simp

lemma build_row_snoc:
  "build_row (hs @ [h]) vs = set_prop (build_row hs vs) h (value_or_empty vs (length hs))"
  unfolding build_row_def zip_upt_snoc by simp

lemma build_row_Nil [simp]: "build_row [] vs = []"
  by (simp add: build_row_def)

lemma build_row_keys:
  "''__proto__'' \<notin> set hs \<Longrightarrow> fst ` set (build_row hs vs) = set hs"
  by (induction hs rule: rev_induct) (simp_all add: build_row_snoc keys_set_prop)

lemma build_row_distinct: "distinct (map fst (build_row hs vs))"
  by (induction hs rule: rev_induct) (simp_all add: build_row_snoc distinct_set_prop)

lemma build_row_lookup:
  assumes "distinct hs" "''__proto__'' \<notin> set hs" "i < length hs"
  shows "map_of (build_row hs vs) (hs ! i) = Some (value_or_empty vs i)"
  using assms
proof (induction hs rule: rev_induct)
  case Nil
  then show ?case by simp
next
  case (snoc h hs)
  from snoc.prems have h: "''__proto__'' \<noteq> h" by simp
  show ?case
  proof (cases "i < length hs")
    case True
    with snoc.prems have "hs ! i \<noteq> h" by (auto simp: in_set_conv_nth)
    with snoc True h show ?thesis
      by (simp add: build_row_snoc map_of_set_prop nth_append)
  next
    case False
    with snoc.prems have "i = length hs" by simp
    with h show ?thesis by (simp add: build_row_snoc map_of_set_prop)
  qed
qed

lemma build_row_length:
  assumes "distinct hs" "''__proto__'' \<notin> set hs"
  shows "length (build_row hs vs) = length hs"
proof -
  have "length (build_row hs vs) = card (set (map fst (build_row hs vs)))"
    using build_row_distinct [of hs vs] by (simp add: distinct_card del: set_map)
  also have "\<dots> = card (set hs)" using assms(2) by (simp add: build_row_keys)
  also have "\<dots> = length hs" using assms(1) by (simp add: distinct_card)
  finally show ?thesis .
qed

lemma build_row_keys_subset:
  "fst ` set (build_row hs vs) = set hs - {''__proto__''}"
proof (induction hs rule: rev_induct)
  case Nil
  then show ?case by simp
next
  case (snoc h hs)
  show ?case
  proof (cases "h = ''__proto__''")
    case True
    with snoc show ?thesis by (simp add: build_row_snoc set_prop_def)
  next
    case False
    then have "''__proto__'' \<noteq> h" by simp
    from keys_set_prop [OF this] snoc False show ?thesis
      by (auto simp: build_row_snoc)
  qed
qed

lemma build_row_lookup_last:
  assumes "i < length hs" "hs ! i \<noteq> ''__proto__''" "hs ! i \<notin> set (drop (Suc i) hs)"
  shows "map_of (build_row hs vs) (hs ! i) = Some (value_or_empty vs i)"
  using assms
proof (induction hs rule: rev_induct)
  case Nil
  then show ?case by simp
next
  case (snoc h hs)
  show ?case
  proof (cases "i < length hs")
    case True
    with snoc.prems have i: "hs ! i \<noteq> ''__proto__''" "hs ! i \<notin> set (drop (Suc i) hs)"
      "hs ! i \<noteq> h"
      by (simp_all add: nth_append)
    from snoc.IH [OF True i(1,2)] have ih:
      "map_of (build_row hs vs) (hs ! i) = Some (value_or_empty vs i)" .
    show ?thesis
    proof (cases "h = ''__proto__''")
      case p: True
      with ih True show ?thesis by (simp add: build_row_snoc set_prop_def nth_append)
    next
      case False
      then have "''__proto__'' \<noteq> h" by simp
      from map_of_set_prop [OF this] ih True i(3) show ?thesis
        by (simp add: build_row_snoc nth_append)
    qed
  next
    case False
    with snoc.prems have e: "i = length hs" by simp
    with snoc.prems have "''__proto__'' \<noteq> h" by auto
    from map_of_set_prop [OF this] e show ?thesis by (simp add: build_row_snoc)
  qed
qed

lemma digits_value_snoc:
  "digits_value (s @ [c]) = 10 * digits_value s + (of_char c - 48)"
  by (simp add: digits_value_def)

lemma of_char_digit_char: "d < 10 \<Longrightarrow> (of_char (digit_char d) :: nat) = 48 + d"
  by (simp add: digit_char_def)

lemma digits_value_toString: "digits_value (toString n) = n"
proof (induction n rule: toString.induct)
  case (1 n)
  show ?case
  proof (cases "n < 10")
    case True
    then show ?thesis
      by (simp add: toString_digit digits_value_def of_char_digit_char)
  next
    case False
    then have "toString n = toString (n div 10) @ [digit_char (n mod 10)]"
      by (subst toString.simps) simp
    with 1 [OF False] show ?thesis
      by (simp add: digits_value_snoc of_char_digit_char)
  qed
qed

lemma toString_inj: "toString n = toString m \<Longrightarrow> n = m"
  by (metis digits_value_toString)

lemma generated_names:
  "distinct (map (\<lambda>i. ''column_'' @ toString i) [0..<n])"
  "''__proto__'' \<notin> set (map (\<lambda>i. ''column_'' @ toString i) [0..<n])"
  by (auto simp: distinct_map inj_on_def dest: toString_inj)

subsection \<open>The round trip\<close>

lemma split_lines_from_char:
  "LF \<noteq> c \<Longrightarrow> CR \<noteq> c \<or> rest = [] \<or> hd rest \<noteq> LF \<Longrightarrow>
     split_lines_from cur (c # rest) = split_lines_from (cur @ [c]) rest"
  by (cases rest) auto

lemma split_lines_from_LF:
  "split_lines_from cur (LF # rest) = cur # split_lines_from [] rest"
  by (cases rest) simp_all

lemma split_lines_from_line:
  "unbroken l \<Longrightarrow> rest = [] \<or> hd rest = LF \<Longrightarrow>
     split_lines_from cur (l @ rest) = split_lines_from (cur @ l) rest"
proof (induction l arbitrary: cur)
  case Nil
  then show ?case by simp
next
  case (Cons c l)
  from Cons.prems(1) have c: "LF \<noteq> c" and l: "unbroken l"
    by (auto simp: unbroken_def)
  have "CR \<noteq> c \<or> l @ rest = [] \<or> hd (l @ rest) \<noteq> LF"
  proof (cases l)
    case Nil
    with Cons.prems(1) show ?thesis by (auto simp: unbroken_def)
  next
    case (Cons c' l')
    with Cons.prems(1) show ?thesis by (auto simp: unbroken_def)
  qed
  with c have "split_lines_from cur ((c # l) @ rest) = split_lines_from (cur @ [c]) (l @ rest)"
    by (simp add: split_lines_from_char)
  also have "\<dots> = split_lines_from ((cur @ [c]) @ l) rest"
    using l Cons.prems(2) by (rule Cons.IH)
  finally show ?case by simp
qed

lemma split_lines_join:
  assumes "ls \<noteq> []" "list_all unbroken ls"
  shows "split_lines (join [LF] ls) = ls"
proof -
  have "split_lines_from [] (join [LF] (l # ls)) = l # ls"
    if "list_all unbroken (l # ls)" for l ls
    using that
  proof (induction ls arbitrary: l)
    case Nil
    then show ?case
      using split_lines_from_line [of l "[]" "[]"] by simp
  next
    case (Cons m ms)
    then have "split_lines_from [] (l @ LF # join [LF] (m # ms)) = l # m # ms"
      using split_lines_from_line [of l "LF # join [LF] (m # ms)" "[]"]
      by (simp add: split_lines_from_LF)
    then show ?case by simp
  qed
  with assms show ?thesis by (cases ls) (simp_all add: split_lines_def)
qed

lemma trim_Nil_iff: "(trim s = []) = list_all is_space s"
proof
  assume t: "trim s = []"
  have "dropWhile is_space s = []"
  proof (rule ccontr)
    assume ne: "dropWhile is_space s \<noteq> []"
    then have "\<not> is_space (hd (dropWhile is_space s))" by (rule hd_dropWhile)
    moreover from t have "dropWhile is_space (rev (dropWhile is_space s)) = []"
      by (simp add: trim_def)
    then have "\<forall>x\<in>set (rev (dropWhile is_space s)). is_space x"
      by (simp only: dropWhile_eq_Nil_conv)
    then have "is_space (hd (dropWhile is_space s))"
      using ne by simp
    ultimately show False by simp
  qed
  then show "list_all is_space s"
    by (simp only: dropWhile_eq_Nil_conv list_all_iff)
next
  assume "list_all is_space s"
  then have d: "dropWhile is_space s = []"
    by (simp only: dropWhile_eq_Nil_conv list_all_iff)
  show "trim s = []" unfolding trim_def d by simp
qed


lemma parseLoop_unquoted_run:
  "dquote \<notin> set v \<Longrightarrow> d \<notin> set v \<Longrightarrow>
     parseLoop [d] r cur False (v @ rest) = parseLoop [d] r (cur @ v) False rest"
proof (induction v arbitrary: cur)
  case Nil
  then show ?case by simp
next
  case (Cons c v)
  then have "c \<noteq> dquote" "[c] \<noteq> [d]" by auto
  then have "parseLoop [d] r cur False ((c # v) @ rest) = parseLoop [d] r (cur @ [c]) False (v @ rest)"
    by (simp add: parseLoop_char)
  also have "\<dots> = parseLoop [d] r ((cur @ [c]) @ v) False rest"
    using Cons by simp
  finally show ?case by simp
qed

lemma parseLoop_quoted_run:
  "rest = [] \<or> hd rest \<noteq> dquote \<Longrightarrow>
     parseLoop dl r cur True (double_quotes v @ dquote # rest) = parseLoop dl r (cur @ v) False rest"
proof (induction v arbitrary: cur)
  case Nil
  then show ?case by (simp add: parseLoop_quoted_end)
next
  case (Cons c v)
  show ?case
  proof (cases "c = dquote")
    case True
    then have "parseLoop dl r cur True (double_quotes (c # v) @ dquote # rest)
        = parseLoop dl r (cur @ [dquote]) True (double_quotes v @ dquote # rest)"
      by (simp add: parseLoop_quoted_escaped)
    also have "\<dots> = parseLoop dl r ((cur @ [dquote]) @ v) False rest"
      using Cons by simp
    finally show ?thesis using True by simp
  next
    case False
    then have "parseLoop dl r cur True (double_quotes (c # v) @ dquote # rest)
        = parseLoop dl r (cur @ [c]) True (double_quotes v @ dquote # rest)"
      by (simp add: parseLoop_quoted_char)
    also have "\<dots> = parseLoop dl r ((cur @ [c]) @ v) False rest"
      using Cons by simp
    finally show ?thesis by simp
  qed
qed

lemma escapeField_single:
  "escapeField v [d] =
     (if d \<in> set v \<or> dquote \<in> set v \<or> LF \<in> set v \<or> CR \<in> set v
      then dquote # double_quotes v @ [dquote] else v)"
  by (simp add: escapeField_def js_includes_single escaped_double_quotes)

lemma parseLoop_field:
  assumes "rest = [] \<or> hd rest \<noteq> dquote" "d \<noteq> dquote"
  shows "parseLoop [d] r cur False (escapeField v [d] @ rest) = parseLoop [d] r (cur @ v) False rest"
proof (cases "d \<in> set v \<or> dquote \<in> set v \<or> LF \<in> set v \<or> CR \<in> set v")
  case True
  then have "parseLoop [d] r cur False (escapeField v [d] @ rest)
      = parseLoop [d] r cur True (double_quotes v @ dquote # rest)"
    by (simp add: escapeField_single parseLoop_open)
  also have "\<dots> = parseLoop [d] r (cur @ v) False rest"
    using assms(1) by (rule parseLoop_quoted_run)
  finally show ?thesis .
next
  case False
  then show ?thesis
    by (simp add: escapeField_single parseLoop_unquoted_run)
qed

lemma parseLoop_joined:
  assumes "d \<noteq> dquote"
  shows "parseLoop [d] r [] False (join [d] (map (\<lambda>v. escapeField v [d]) (v # vs)))
           = r @ map trim (v # vs)"
proof (induction vs arbitrary: v r)
  case Nil
  have "parseLoop [d] r [] False (escapeField v [d] @ []) = parseLoop [d] r ([] @ v) False []"
    using assms by (intro parseLoop_field) simp_all
  then show ?case by simp
next
  case (Cons w ws)
  let ?tail = "join [d] (map (\<lambda>v. escapeField v [d]) (w # ws))"
  have "parseLoop [d] r [] False (escapeField v [d] @ d # ?tail)
          = parseLoop [d] r ([] @ v) False (d # ?tail)"
    using assms by (intro parseLoop_field) simp_all
  also have "\<dots> = parseLoop [d] (r @ [trim v]) [] False ?tail"
    using assms by (simp add: parseLoop_delim)
  also have "\<dots> = (r @ [trim v]) @ map trim (w # ws)"
    by (rule Cons)
  finally show ?case by simp
qed

lemma parseLine_joined:
  assumes "d \<noteq> dquote" "vs \<noteq> []"
  shows "parseLine (join [d] (map (\<lambda>v. escapeField v [d]) vs)) [d] = map trim vs"
  using assms parseLoop_joined [of d "[]"] by (cases vs) (simp_all add: parseLine_def)


lemma update_new_key: "k \<notin> fst ` set obj \<Longrightarrow> AList.update k v obj = obj @ [(k, v)]"
  by (induction obj) auto

lemma insert_index_last:
  "list_all (\<lambda>(k', v'). is_array_index k' \<and> digits_value k' < digits_value k) obj \<Longrightarrow>
     insert_index k v obj = obj @ [(k, v)]"
  by (induction obj) auto

lemma set_prop_last:
  assumes "''__proto__'' \<noteq> k" "k \<notin> fst ` set obj"
    and "is_array_index k \<longrightarrow>
           list_all (\<lambda>(k', v'). is_array_index k' \<and> digits_value k' < digits_value k) obj"
  shows "set_prop obj k v = obj @ [(k, v)]"
  using assms by (auto simp: set_prop_def insert_index_last update_new_key)

lemma key_order_ok_snoc:
  "key_order_ok (hs @ [h]) \<Longrightarrow>
     key_order_ok hs \<and> ''__proto__'' \<noteq> h \<and> h \<notin> set hs
     \<and> (is_array_index h \<longrightarrow>
           list_all (\<lambda>k'. is_array_index k' \<and> digits_value k' < digits_value h) hs)"
  by (auto simp: key_order_ok_def sorted_wrt_append list_all_iff)

lemma build_row_in_order:
  assumes "key_order_ok hs"
  shows "build_row hs vs = zip hs (map (value_or_empty vs) [0..<length hs])"
  using assms
proof (induction hs rule: rev_induct)
  case Nil
  then show ?case by simp
next
  case (snoc h hs)
  note ok = key_order_ok_snoc [OF snoc.prems]
  let ?row = "zip hs (map (value_or_empty vs) [0..<length hs])"
  have row: "build_row hs vs = ?row" using snoc.IH ok by simp
  have keys: "fst ` set ?row = set hs"
    by (simp add: set_zip image_iff set_eq_iff in_set_conv_nth) blast
  have idx: "list_all (\<lambda>(k', v'). is_array_index k' \<and> digits_value k' < digits_value h) ?row"
    if "is_array_index h"
  proof -
    from ok that have "list_all (\<lambda>k'. is_array_index k' \<and> digits_value k' < digits_value h) hs"
      by simp
    then show ?thesis
      by (auto simp: list_all_iff dest: set_zip_leftD)
  qed
  have "set_prop ?row h (value_or_empty vs (length hs)) = ?row @ [(h, value_or_empty vs (length hs))]"
    using ok keys idx by (intro set_prop_last) auto
  then show ?case by (simp add: build_row_snoc row)
qed

lemma build_row_zip:
  assumes "key_order_ok hs" "length vs = length hs"
  shows "build_row hs vs = zip hs vs"
proof -
  have "map (value_or_empty vs) [0..<length hs] = vs"
    using assms(2) by (intro nth_equalityI) (simp_all add: value_or_empty_def)
  with build_row_in_order [OF assms(1), of vs] show ?thesis by simp
qed


lemma cell_text_own:
  assumes "distinct (map fst row)"
  shows "map (cell_text row) (map fst row) = map snd row"
proof -
  have "cell_text row (fst x) = snd x" if "x \<in> set row" for x
  proof -
    from that assms have "map_of row (fst x) = Some (snd x)"
      by (metis map_of_is_SomeI prod.collapse)
    then show ?thesis by (simp add: cell_text_def get_prop_def)
  qed
  then show ?thesis by simp
qed

lemma set_join: "c \<in> set (join sep xs) \<Longrightarrow> c \<in> set sep \<or> (\<exists>x\<in>set xs. c \<in> set x)"
  by (induction sep xs rule: join.induct) auto

lemma set_double_quotes: "set (double_quotes v) = set v"
  by (induction v) auto

lemma set_escapeField: "c \<in> set (escapeField v [d]) \<Longrightarrow> c = dquote \<or> c \<in> set v"
  by (auto simp: escapeField_single set_double_quotes split: if_splits)

lemma is_space_LF_CR: "is_space LF" "is_space CR" "\<not> is_space dquote"
  by (simp_all add: is_space_def LF_def CR_def dquote_def)

lemma last_join:
  "join [d] (x # xs) \<noteq> [] \<Longrightarrow>
     last (join [d] (x # xs)) = d \<or> (\<exists>y\<in>set (x # xs). y \<noteq> [] \<and> last (join [d] (x # xs)) = last y)"
proof (induction xs arbitrary: x)
  case Nil
  then show ?case by simp
next
  case (Cons y ys)
  show ?case
  proof (cases "join [d] (y # ys) = []")
    case True
    then show ?thesis by simp
  next
    case False
    from Cons.IH [OF False] False show ?thesis by auto
  qed
qed

lemma last_escapeField:
  assumes "escapeField v [d] \<noteq> []"
  shows "last (escapeField v [d]) \<noteq> CR"
proof (cases "d \<in> set v \<or> dquote \<in> set v \<or> LF \<in> set v \<or> CR \<in> set v")
  case True
  then have "last (escapeField v [d]) = dquote" by (simp add: escapeField_single)
  then show ?thesis by (simp add: dquote_def CR_def)
next
  case False
  with assms have e: "escapeField v [d] = v" and v: "v \<noteq> []" "CR \<notin> set v"
    by (simp_all add: escapeField_single)
  from v(1) have "last v \<in> set v" by (rule last_in_set)
  with v(2) have "last v \<noteq> CR" by auto
  then show ?thesis unfolding e .
qed

lemma line_of_no_break:
  assumes "\<not> is_space d" "list_all plain_cell vs"
  shows "unbroken (line_of d vs)"
proof -
  have "c \<noteq> LF" if "c \<in> set (line_of d vs)" for c
  proof -
    from that consider "c = d" | v where "v \<in> set vs" "c \<in> set (escapeField v [d])"
      unfolding line_of_def by (auto dest!: set_join)
    then show ?thesis
    proof cases
      case 1
      with assms(1) show ?thesis using is_space_LF_CR by auto
    next
      case 2
      from 2(1) assms(2) have "LF \<notin> set v"
        by (auto simp: list_all_iff plain_cell_def)
      moreover have "dquote \<noteq> LF"
        by (simp add: dquote_def LF_def)
      ultimately show ?thesis using set_escapeField [OF 2(2)] by auto
    qed
  qed
  moreover have "last (line_of d vs) \<noteq> CR" if ne: "line_of d vs \<noteq> []"
  proof (cases vs)
    case Nil
    with ne show ?thesis by (simp add: line_of_def)
  next
    case (Cons v vs')
    let ?es = "map (\<lambda>v. escapeField v [d]) (v # vs')"
    from ne Cons have "join [d] (escapeField v [d] # map (\<lambda>v. escapeField v [d]) vs') \<noteq> []"
      by (simp add: line_of_def)
    from last_join [OF this] consider "last (line_of d vs) = d"
      | y where "y \<in> set ?es" "y \<noteq> []" "last (line_of d vs) = last y"
      unfolding line_of_def Cons by auto
    then show ?thesis
    proof cases
      case 1
      with assms(1) show ?thesis using is_space_LF_CR by auto
    next
      case 2
      from 2(1) obtain w where "y = escapeField w [d]" by auto
      with 2(2,3) last_escapeField [of w d] show ?thesis by simp
    qed
  qed
  ultimately show ?thesis unfolding unbroken_def by blast
qed

lemma plain_cell_not_blank:
  assumes "plain_cell v" "v \<noteq> []"
  shows "\<not> list_all is_space v"
proof
  assume "list_all is_space v"
  then have "trim v = []" by (simp add: trim_Nil_iff)
  with assms show False by (simp add: plain_cell_def)
qed

lemma line_of_not_blank:
  assumes "\<not> is_space d" "list_all plain_cell vs"
    and "2 \<le> length vs \<or> (vs \<noteq> [] \<and> [] \<notin> set vs)"
  shows "trim (line_of d vs) \<noteq> []"
proof -
  have "\<not> list_all is_space (line_of d vs)"
  proof (cases "2 \<le> length vs")
    case True
    then obtain x y ys where "vs = x # y # ys"
      by (cases vs; cases "tl vs") auto
    then have "d \<in> set (line_of d vs)" by (simp add: line_of_def)
    with assms(1) show ?thesis by (auto simp: list_all_iff)
  next
    case False
    with assms(3) obtain v where vs: "vs = [v]" "v \<noteq> []"
      by (cases vs; cases "tl vs") auto
    with assms(2) have pv: "plain_cell v" by simp
    show ?thesis
    proof (cases "d \<in> set v \<or> dquote \<in> set v \<or> LF \<in> set v \<or> CR \<in> set v")
      case True
      then have "dquote \<in> set (line_of d vs)"
        by (simp add: line_of_def vs escapeField_single)
      then show ?thesis using is_space_LF_CR(3) by (auto simp: list_all_iff)
    next
      case False
      then have "line_of d vs = v" by (simp add: line_of_def vs escapeField_single)
      with plain_cell_not_blank [OF pv vs(2)] show ?thesis by simp
    qed
  qed
  then show ?thesis by (simp add: trim_Nil_iff)
qed

lemma parseLine_line_of:
  assumes "d \<noteq> dquote" "vs \<noteq> []" "list_all plain_cell vs"
  shows "parseLine (line_of d vs) [d] = vs"
proof -
  have "map trim vs = vs"
    using assms(3) by (induction vs) (simp_all add: plain_cell_def)
  with parseLine_joined [OF assms(1,2)] show ?thesis by (simp add: line_of_def)
qed


lemma parseCSV_lines:
  assumes "filteredLines content options = h # ls" "opt_hasHeaders options"
  shows "parseCSV content options =
           map (\<lambda>line. build_row (parseLine h (opt_delimiter options))
                         (parseLine line (opt_delimiter options))) ls"
  using assms by (simp add: parseCSV_def)

lemma filteredLines_join:
  assumes "list_all unbroken (h # ls)"
    and "opt_skipEmptyLines options \<longrightarrow> list_all (\<lambda>l. trim l \<noteq> []) (h # ls)"
  shows "filteredLines (join [LF] (h # ls)) options = h # ls"
proof -
  have lines: "split_lines (join [LF] (h # ls)) = h # ls"
    using assms(1) by (intro split_lines_join) simp_all
  have "filter (\<lambda>line. length (trim line) > 0) (h # ls) = h # ls"
    if "opt_skipEmptyLines options"
    using that assms(2) by (simp add: list_all_iff filter_id_conv del: filter.simps)
  then have "(if opt_skipEmptyLines options
              then filter (\<lambda>line. length (trim line) > 0) (h # ls) else h # ls) = h # ls"
    by simp
  then show ?thesis
    unfolding filteredLines_def lines Let_def .
qed

lemma stringifyCSV_lines:
  assumes "opt_delimiter options = [d]" "opt_hasHeaders options"
    and "distinct cols" "list_all (\<lambda>row. map fst row = cols) (first # rest)"
  shows "stringifyCSV (first # rest) options =
           join [LF] (line_of d cols # map (\<lambda>row. line_of d (map snd row)) (first # rest))"
proof -
  have cols: "map fst first = cols" using assms(4) by simp
  have "line_of d (map (cell_text row) cols) = line_of d (map snd row)"
    if "row \<in> set (first # rest)" for row
  proof -
    from that assms(4) have "map fst row = cols" by (auto simp: list_all_iff)
    with cell_text_own [of row] assms(3) show ?thesis by simp
  qed
  then have eq: "map (\<lambda>row. line_of d (map (cell_text row) cols)) (first # rest)
               = map (\<lambda>row. line_of d (map snd row)) (first # rest)"
    by (intro map_cong) simp_all
  have "stringifyCSV (first # rest) options =
          join [LF] (line_of d cols
                     # map (\<lambda>row. line_of d (map (cell_text row) cols)) (first # rest))"
    using assms(1,2) cols
    by (simp add: stringifyCSV_def Let_def line_of_def comp_def)
  then show ?thesis by (simp only: eq)
qed


text \<open>
  Claim C1, as amended. With a header line and a delimiter of one character that is
  neither a double quote nor white space, \<open>parseCSV (stringifyCSV table)\<close> is the table
  again, for every table whose rows share one list of column names in key order and
  whose names and values are plain (they may hold the delimiter, double quotes and
  carriage returns, but no line feed and no white space at either end), provided that
  no line is blank when empty lines are skipped.
\<close>

theorem csv_roundtrip:
  assumes opts: "opt_delimiter options = [d]" "d \<noteq> dquote" "\<not> is_space d"
      "opt_hasHeaders options"
    and ok: "table_ok cols data"
    and blank: "opt_skipEmptyLines options \<longrightarrow> no_blank_line cols data"
  shows "parseCSV (stringifyCSV data options) options = data"
proof (cases data)
  case Nil
  have "parseCSV [] options = []"
    using opts(4) by (simp add: parseCSV_def filteredLines_def split_lines_def trim_def Let_def)
  with Nil show ?thesis by (simp add: stringifyCSV_def)
next
  case (Cons first rest)
  from ok have cols: "key_order_ok cols" "cols \<noteq> []" "list_all plain_cell cols"
    and rows: "list_all (\<lambda>row. map fst row = cols \<and> list_all plain_cell (map snd row)) data"
    by (simp_all add: table_ok_def)
  from cols(1) have dist: "distinct cols" by (simp add: key_order_ok_def)
  have row: "map fst row = cols" "list_all plain_cell (map snd row)"
    "length (map snd row) = length cols" "map snd row \<noteq> []"
    if "row \<in> set data" for row
  proof -
    from that rows show a: "map fst row = cols" and "list_all plain_cell (map snd row)"
      by (auto simp: list_all_iff)
    from a have "length row = length cols" by (metis length_map)
    then show "length (map snd row) = length cols" by simp
    with cols(2) show "map snd row \<noteq> []" by auto
  qed
  let ?h = "line_of d cols"
  let ?ls = "map (\<lambda>row. line_of d (map snd row)) data"
  have str: "stringifyCSV data options = join [LF] (?h # ?ls)"
    unfolding Cons
    by (rule stringifyCSV_lines [OF opts(1,4) dist]) (use rows Cons in \<open>simp add: list_all_iff\<close>)
  have nobreak: "list_all unbroken (?h # ?ls)"
    using line_of_no_break [OF opts(3)] cols(3) row(2)
    by (simp add: list_all_iff)
  have nonblank: "list_all (\<lambda>l. trim l \<noteq> []) (?h # ?ls)" if "opt_skipEmptyLines options"
  proof -
    from that blank have nb: "no_blank_line cols data" by simp
    have "trim ?h \<noteq> []"
      using nb cols(2) by (intro line_of_not_blank [OF opts(3) cols(3)]) (auto simp: no_blank_line_def)
    moreover have "trim (line_of d (map snd row)) \<noteq> []" if r: "row \<in> set data" for row
    proof (rule line_of_not_blank [OF opts(3) row(2) [OF r]])
      show "2 \<le> length (map snd row) \<or> map snd row \<noteq> [] \<and> [] \<notin> set (map snd row)"
        using nb row(3,4) [OF r] r unfolding no_blank_line_def list_all_iff by auto
    qed
    ultimately show ?thesis by (simp add: list_all_iff)
  qed
  have head: "parseLine ?h [d] = cols"
    by (rule parseLine_line_of [OF opts(2) cols(2,3)])
  have "filteredLines (join [LF] (?h # ?ls)) options = ?h # ?ls"
    using nobreak nonblank by (intro filteredLines_join) simp_all
  then have "parseCSV (join [LF] (?h # ?ls)) options =
          map (\<lambda>line. build_row (parseLine ?h (opt_delimiter options))
                        (parseLine line (opt_delimiter options))) ?ls"
    using opts(4) by (rule parseCSV_lines)
  also have "\<dots> = map (\<lambda>row. build_row cols (parseLine (line_of d (map snd row)) [d])) data"
    by (simp add: opts(1) head comp_def)
  also have "\<dots> = map (\<lambda>row. row) data"
  proof (rule map_cong [OF refl])
    fix row assume r: "row \<in> set data"
    have "parseLine (line_of d (map snd row)) [d] = map snd row"
      by (rule parseLine_line_of [OF opts(2) row(4) [OF r] row(2) [OF r]])
    moreover have "build_row cols (map snd row) = zip cols (map snd row)"
      by (rule build_row_zip [OF cols(1) row(3) [OF r]])
    moreover have "zip cols (map snd row) = row"
      using row(1) [OF r] by (metis zip_map_fst_snd)
    ultimately show "build_row cols (parseLine (line_of d (map snd row)) [d]) = row"
      by simp
  qed
  finally show ?thesis by (simp add: str)
qed

text \<open>The definitions that evaluate the CSV functions on a concrete input.\<close>

lemmas csv_eval = parseCSV_def filteredLines_def split_lines_def parseLine_def parseLoop.simps build_row_def
  set_prop_def value_or_empty_def opt_delimiter_def opt_hasHeaders_def opt_skipEmptyLines_def
  DEFAULT_OPTIONS_def trim_def is_space_def LF_def CR_def dquote_def is_array_index_def
  digits_value_def is_digit_def stringifyCSV_def escapeField_def cell_text_def get_prop_def
  startsWith_def

theorem csv_roundtrip_witness:
  "table_ok [''a'', ''b'']
     [[(''a'', ''x, '' @ [dquote] @ ''y''), (''b'', [])], [(''a'', ''p''), (''b'', ''q'' @ [CR] @ ''r'')]]
   \<and> no_blank_line [''a'', ''b'']
     [[(''a'', ''x, '' @ [dquote] @ ''y''), (''b'', [])], [(''a'', ''p''), (''b'', ''q'' @ [CR] @ ''r'')]]
   \<and> parseCSV (stringifyCSV
        [[(''a'', ''x, '' @ [dquote] @ ''y''), (''b'', [])], [(''a'', ''p''), (''b'', ''q'' @ [CR] @ ''r'')]]
        DEFAULT_OPTIONS) DEFAULT_OPTIONS
     = [[(''a'', ''x, '' @ [dquote] @ ''y''), (''b'', [])], [(''a'', ''p''), (''b'', ''q'' @ [CR] @ ''r'')]]"
proof -
  let ?t = "[[(''a'', ''x, '' @ [dquote] @ ''y''), (''b'', [])], [(''a'', ''p''), (''b'', ''q'' @ [CR] @ ''r'')]]"
  have o: "opt_delimiter DEFAULT_OPTIONS = [CHR '','']" "CHR '','' \<noteq> dquote"
    "\<not> is_space CHR '',''" "opt_hasHeaders DEFAULT_OPTIONS"
    by (simp_all add: opt_delimiter_def opt_hasHeaders_def DEFAULT_OPTIONS_def dquote_def
        is_space_def)
  have t: "table_ok [''a'', ''b''] ?t"
    by (simp add: table_ok_def key_order_ok_def plain_cell_def is_array_index_def is_digit_def
        trim_def is_space_def LF_def CR_def dquote_def)
  have b: "no_blank_line [''a'', ''b''] ?t"
    by (simp add: no_blank_line_def)
  from csv_roundtrip [OF o t] b t show ?thesis by simp
qed

text \<open>
  Claim C1 as stated fails. A leading space is trimmed away and a row of one empty
  value is skipped as an empty line, as \<open>parseLine\<close> and the default options are written
  to do. A value with a line feed is written in quotes, but \<open>parseCSV\<close> splits the
  content into lines before it looks at quotes, and the one row comes back as two.
\<close>

theorem csv_roundtrip_fails:
  "parseCSV (stringifyCSV [[(''a'', '' x'')]] DEFAULT_OPTIONS) DEFAULT_OPTIONS
     = [[(''a'', ''x'')]]
   \<and> parseCSV (stringifyCSV [[(''a'', [])]] DEFAULT_OPTIONS) DEFAULT_OPTIONS = []
   \<and> parseCSV (stringifyCSV [[(''a'', ''x'' @ [LF] @ ''y'')]] DEFAULT_OPTIONS) DEFAULT_OPTIONS
     = [[(''a'', ''x'')], [(''a'', ''y'')]]
   \<and> parseCSV (stringifyCSV [[(''a'', ''x'' @ [LF] @ ''y'')]] DEFAULT_OPTIONS) DEFAULT_OPTIONS
     \<noteq> [[(''a'', ''x'' @ [LF] @ ''y'')]]"
  by (simp add: csv_eval)

subsection \<open>What a row keeps of a line\<close>

lemma parseCSV_no_lines:
  "filteredLines content options = [] \<Longrightarrow> parseCSV content options = []"
  by (simp add: parseCSV_def)

lemma parseCSV_rows:
  assumes "filteredLines content options = first # others"
  shows "parseCSV content options =
           map (\<lambda>line. build_row (column_names options first)
                         (spec_fields (opt_delimiter options) line))
             (data_lines options (first # others))"
  using assms
  by (simp add: parseCSV_def column_names_def data_lines_def parseLine_spec_fields)

text \<open>
  Claim C5, as amended. \<open>parseLine\<close> accounts for every character of every line: each
  character has one role (kept, quoting mark or separator, as defined by \<open>roles\<close>); the
  kept characters, in their order and split at the separators, are the raw fields, one
  more than there are separators; and \<open>parseLine\<close> returns each raw field without the
  white space at its two ends, and otherwise unchanged. For every content that has a
  line (after the split at line breaks and, with \<open>skipEmptyLines\<close>, without the blank
  lines), with a header line or without one: \<open>parseCSV\<close> returns one row per data
  line; the keys of a row are distinct and are column names; and under the column name
  at position \<open>i\<close>, unless that name is \<open>__proto__\<close> or occurs again at a later
  position, the row holds the field at position \<open>i\<close> of the line, or the empty string
  when the line has no such field. Generated column names are distinct and none is
  \<open>__proto__\<close>. A field at a position past the last column name, or under a name that
  occurs again later, is not in the row.
\<close>

theorem parseCSV_keeps_column_fields:
  assumes "filteredLines content options = first # others"
    and "j < length (data_lines options (first # others))"
  shows "parseLine line (opt_delimiter options) = spec_fields (opt_delimiter options) line
    \<and> map fst (line_roles (opt_delimiter options) line) = line
    \<and> concat (raw_fields (line_roles (opt_delimiter options) line))
        = map fst (filter (\<lambda>(c, r). r = Kept) (line_roles (opt_delimiter options) line))
    \<and> length (raw_fields (line_roles (opt_delimiter options) line))
        = Suc (length (filter (\<lambda>(c, r). r = Separator) (line_roles (opt_delimiter options) line)))
    \<and> (\<exists>a b. s = a @ trim s @ b \<and> list_all is_space a \<and> list_all is_space b)
    \<and> (trim s = [] \<or> (\<not> is_space (hd (trim s)) \<and> \<not> is_space (last (trim s))))
    \<and> length (parseCSV content options) = length (data_lines options (first # others))
    \<and> distinct (map fst (parseCSV content options ! j))
    \<and> set (map fst (parseCSV content options ! j)) \<subseteq> set (column_names options first)
    \<and> (\<forall>i < length (column_names options first).
          column_names options first ! i \<noteq> ''__proto__''
          \<and> column_names options first ! i \<notin> set (drop (Suc i) (column_names options first))
          \<longrightarrow> map_of (parseCSV content options ! j) (column_names options first ! i)
              = Some (if i < length (spec_fields (opt_delimiter options)
                                       (data_lines options (first # others) ! j))
                      then spec_fields (opt_delimiter options)
                             (data_lines options (first # others) ! j) ! i
                      else []))
    \<and> (\<not> opt_hasHeaders options \<longrightarrow>
          distinct (column_names options first)
          \<and> ''__proto__'' \<notin> set (column_names options first))"
proof -
  let ?d = "opt_delimiter options"
  let ?names = "column_names options first"
  let ?lines = "data_lines options (first # others)"
  have rows: "parseCSV content options = map (\<lambda>line. build_row ?names (spec_fields ?d line)) ?lines"
    by (rule parseCSV_rows [OF assms(1)])
  then have row: "parseCSV content options ! j = build_row ?names (spec_fields ?d (?lines ! j))"
    using assms(2) by simp
  have len: "length (parseCSV content options) = length ?lines"
    using rows by simp
  have keys: "set (map fst (build_row ?names (spec_fields ?d (?lines ! j)))) \<subseteq> set ?names"
    using build_row_keys_subset [of ?names "spec_fields ?d (?lines ! j)"] by auto
  have look: "\<forall>i < length ?names.
      ?names ! i \<noteq> ''__proto__'' \<and> ?names ! i \<notin> set (drop (Suc i) ?names)
      \<longrightarrow> map_of (build_row ?names (spec_fields ?d (?lines ! j))) (?names ! i)
          = Some (if i < length (spec_fields ?d (?lines ! j))
                  then spec_fields ?d (?lines ! j) ! i else [])"
    using build_row_lookup_last [of _ ?names "spec_fields ?d (?lines ! j)"]
    by (simp add: value_or_empty_def)
  have gen: "\<not> opt_hasHeaders options \<longrightarrow>
      distinct ?names \<and> ''__proto__'' \<notin> set ?names"
    using generated_names [of "length (spec_fields ?d first)"]
    by (simp add: column_names_def)
  show ?thesis
    unfolding row
    using parseLine_spec_fields [of line ?d] line_roles_chars [of ?d line]
      raw_fields_concat [of "line_roles ?d line"] raw_fields_length [of "line_roles ?d line"]
      trim_ends [of s] trim_tight [of s] len
      build_row_distinct [of ?names "spec_fields ?d (?lines ! j)"] keys look gen
    by blast
qed

lemmas spec_eval = spec_fields_def line_roles_def column_names_def data_lines_def

theorem parseCSV_keeps_column_fields_witness:
  "parseCSV (''a,b'' @ [CR, LF] @ ''1'' @ [LF] @ [LF] @ '' 2 ,'' @ [dquote] @ ''x, y'' @ [dquote] @ '',zz'')
     DEFAULT_OPTIONS
   = [[(''a'', ''1''), (''b'', [])], [(''a'', ''2''), (''b'', ''x, y'')]]
   \<and> parseLine ('' 2 ,'' @ [dquote] @ ''x, y'' @ [dquote] @ '',zz'') '',''
     = [''2'', ''x, y'', ''zz'']
   \<and> map_of (parseCSV (''a,b'' @ [CR, LF] @ ''1'' @ [LF] @ [LF] @ '' 2 ,'' @ [dquote] @ ''x, y''
                      @ [dquote] @ '',zz'') DEFAULT_OPTIONS ! 1) ''b''
     = Some ''x, y''
   \<and> map_of (parseCSV (''1;2'' @ [LF] @ ''3'')
               \<lparr>delimiter = Some '';'', hasHeaders = Some False, skipEmptyLines = None\<rparr> ! 1)
        ''column_1''
     = Some []"
proof -
  let ?l = "'' 2 ,'' @ [dquote] @ ''x, y'' @ [dquote] @ '',zz''"
  let ?c = "''a,b'' @ [CR, LF] @ ''1'' @ [LF] @ [LF] @ ?l"
  let ?o = "\<lparr>delimiter = Some '';'', hasHeaders = Some False, skipEmptyLines = None\<rparr>"
  have d: "opt_delimiter DEFAULT_OPTIONS = '',''" "opt_hasHeaders DEFAULT_OPTIONS"
    "opt_delimiter ?o = '';''" "\<not> opt_hasHeaders ?o"
    by (simp_all add: csv_eval)
  have a1: "filteredLines ?c DEFAULT_OPTIONS = ''a,b'' # [''1'', ?l]"
    by (simp add: csv_eval)
  have n: "column_names DEFAULT_OPTIONS ''a,b'' = [''a'', ''b'']"
    by (simp add: spec_eval csv_eval)
  have l: "data_lines DEFAULT_OPTIONS (''a,b'' # [''1'', ?l]) = [''1'', ?l]"
    by (simp add: data_lines_def d)
  have a2: "(1::nat) < length (data_lines DEFAULT_OPTIONS (''a,b'' # [''1'', ?l]))"
    unfolding l by simp
  have f: "spec_fields '','' ?l = [''2'', ''x, y'', ''zz'']"
    by (simp add: spec_eval csv_eval)
  note t = parseCSV_keeps_column_fields [OF a1 a2, of ?l, unfolded n l d]
  from t have p: "parseLine ?l '','' = [''2'', ''x, y'', ''zz'']"
    unfolding f by blast
  note t [THEN conjunct2, THEN conjunct2, THEN conjunct2, THEN conjunct2, THEN conjunct2,
      THEN conjunct2, THEN conjunct2, THEN conjunct2, THEN conjunct2, THEN conjunct1,
      rule_format, of 1]
  then have m: "map_of (parseCSV ?c DEFAULT_OPTIONS ! 1) ''b'' = Some ''x, y''"
    by (simp add: f [simplified])
  have e: "parseCSV ?c DEFAULT_OPTIONS
      = [[(''a'', ''1''), (''b'', [])], [(''a'', ''2''), (''b'', ''x, y'')]]"
    by (simp add: csv_eval)
  have b1: "filteredLines (''1;2'' @ [LF] @ ''3'') ?o = ''1;2'' # [''3'']"
    by (simp add: csv_eval)
  have bl: "data_lines ?o (''1;2'' # [''3'']) = [''1;2'', ''3'']"
    by (simp add: data_lines_def d)
  have b2: "(1::nat) < length (data_lines ?o (''1;2'' # [''3'']))"
    unfolding bl by simp
  have bn: "column_names ?o ''1;2'' = [''column_0'', ''column_1'']"
    by (simp add: spec_eval csv_eval toString_eval upt_conv_Cons)
  have bf: "spec_fields '';'' ''3'' = [''3'']"
    by (simp add: spec_eval csv_eval)
  note u = parseCSV_keeps_column_fields [OF b1 b2, unfolded bn bl d]
  note u [THEN conjunct2, THEN conjunct2, THEN conjunct2, THEN conjunct2, THEN conjunct2,
      THEN conjunct2, THEN conjunct2, THEN conjunct2, THEN conjunct2, THEN conjunct1,
      rule_format, of 1]
  then have k: "map_of (parseCSV (''1;2'' @ [LF] @ ''3'') ?o ! 1) ''column_1'' = Some []"
    by (simp add: bf)
  from e p m k show ?thesis by simp
qed

text \<open>
  Claim C5 as stated fails. With the header \<open>a\<close> the field \<open>2\<close> of the line \<open>1,2\<close> is
  in no entry of the row; with the header \<open>a,a\<close> the field \<open>1\<close> of that line is
  overwritten by the field \<open>2\<close>; and without a header line the field \<open>3\<close> of the line
  \<open>1;2;3\<close> is dropped after a first line of two fields.
\<close>

theorem parseCSV_extra_field_lost:
  "parseCSV (''a'' @ [LF] @ ''1,2'') DEFAULT_OPTIONS = [[(''a'', ''1'')]]
   \<and> CHR ''2'' \<notin> set (concat (map snd (hd (parseCSV (''a'' @ [LF] @ ''1,2'') DEFAULT_OPTIONS))))
   \<and> parseCSV (''a,a'' @ [LF] @ ''1,2'') DEFAULT_OPTIONS = [[(''a'', ''2'')]]
   \<and> parseCSV (''x;y'' @ [LF] @ ''1;2;3'')
        \<lparr>delimiter = Some '';'', hasHeaders = Some False, skipEmptyLines = None\<rparr>
      = [[(''column_0'', ''x''), (''column_1'', ''y'')], [(''column_0'', ''1''), (''column_1'', ''2'')]]"
  by (simp add: csv_eval toString_eval upt_conv_Cons)

text \<open>
  Claim C7. On a line with fewer fields than column names \<open>parseCSV\<close> raises no error,
  and the example of the specification gives the stated row; but a missing trailing
  column named \<open>__proto__\<close> is not filled: the assignment creates no property, and the
  row has no entry for it.
\<close>

theorem parseCSV_short_row_proto:
  "parseCSV (''a,__proto__'' @ [LF] @ ''1'') DEFAULT_OPTIONS = [[(''a'', ''1'')]]
   \<and> map_of (hd (parseCSV (''a,__proto__'' @ [LF] @ ''1'') DEFAULT_OPTIONS)) ''__proto__'' = None
   \<and> parseCSV (''a,b,c'' @ [LF] @ ''1,2'') DEFAULT_OPTIONS
       = [[(''a'', ''1''), (''b'', ''2''), (''c'', [])]]"
  by (simp add: csv_eval)

text \<open>
  Short lines are padded for every column name but \<open>__proto__\<close>: with distinct names,
  the row holds the empty string under each name whose position is past the last field.
\<close>

lemma build_row_short:
  assumes "distinct headers" "''__proto__'' \<notin> set headers"
    and "length vs \<le> i" "i < length headers"
  shows "map_of (build_row headers vs) (headers ! i) = Some []"
  using build_row_lookup [OF assms(1,2,4), of vs] assms(3)
  by (simp add: value_or_empty_def)

text \<open>
  Claim C9. A required field that names a member inherited from \<open>Object.prototype\<close>
  makes the check of the first row throw inside the \<open>try\<close> block: the file was read and
  has one row and one column, a missing column was already recorded, and yet the result
  is the one of a read failure.
\<close>

theorem validateCSV_inherited_required_field:
  "validateCSV (Inr (''a'' @ [LF] @ ''1''))
     \<lparr>delimiter = None, hasHeaders = None, skipEmptyLines = None, expectedRowCount = None,
      expectedColumns = Some [''id''], requiredFields = Some [''toString''],
      minRowCount = None, maxRowCount = None\<rparr>
   = \<lparr>isValid = False, errors = [''Failed to read CSV: row[field].trim is not a function''],
      rowCount = 0, columns = []\<rparr>
   \<and> validateCSV (Inr (''a'' @ [LF] @ ''1''))
     \<lparr>delimiter = None, hasHeaders = None, skipEmptyLines = None, expectedRowCount = None,
      expectedColumns = Some [''id''], requiredFields = None,
      minRowCount = None, maxRowCount = None\<rparr>
   = \<lparr>isValid = False, errors = [''Missing columns: id''], rowCount = 1, columns = [''a'']\<rparr>"
  by (simp add: validateCSV_def readCSV_def count_errors_def inherited_def
      OBJECT_PROTOTYPE_def trim_type_error_def csv_eval)

text \<open>
  When no required field names an inherited member, nothing throws: the result holds
  every error (the column and row count errors, then one per row and missing field),
  is valid exactly when there is none, and reports the rows and columns read. A failed
  read gives the single error with no rows and no columns.
\<close>

lemma check_fields_accumulates:
  "list_all (\<lambda>field. \<not> inherited field) required \<Longrightarrow>
     check_fields row i required errs =
       Inr (errs @ map (missing_field_message i) (filter (field_missing row) required))"
  by (induction required arbitrary: errs)
    (auto simp: get_prop_def field_missing_def split: option.splits)

lemma check_rows_accumulates:
  "list_all (\<lambda>field. \<not> inherited field) required \<Longrightarrow>
     check_rows rows i required errs = Inr (errs @ required_errors rows i required)"
proof (induction rows arbitrary: i errs)
  case Nil
  then show ?case by (simp add: required_errors_def)
next
  case (Cons row rows)
  have "[i..<Suc (i + length rows)] = i # [Suc i..<Suc (i + length rows)]"
    by (rule upt_conv_Cons) simp
  then have "[i..<i + length (row # rows)] = i # [Suc i..<Suc i + length rows]"
    by simp
  then have "required_errors (row # rows) i required =
      map (missing_field_message i) (filter (field_missing row) required)
      @ required_errors rows (Suc i) required"
    by (simp add: required_errors_def)
  with Cons show ?case by (simp add: check_fields_accumulates)
qed

lemma validateCSV_accumulates:
  fixes content :: string and options :: csv_validation_options
  assumes "case requiredFields options of
             None \<Rightarrow> True
           | Some required \<Rightarrow> list_all (\<lambda>field. \<not> inherited field) required"
  defines "data \<equiv> parseCSV content options"
  defines "cols \<equiv> (case data of [] \<Rightarrow> [] | first # _ \<Rightarrow> map fst first)"
  defines "errs \<equiv> count_errors options data cols
                    @ (case requiredFields options of
                         None \<Rightarrow> []
                       | Some required \<Rightarrow> required_errors data 0 required)"
  shows "validateCSV (Inr content) options =
           \<lparr>isValid = (errs = []), errors = errs, rowCount = length data, columns = cols\<rparr>"
    and "validateCSV (Inl e) options =
           \<lparr>isValid = False, errors = [''Failed to read CSV: '' @ message e],
            rowCount = 0, columns = []\<rparr>"
proof -
  show "validateCSV (Inl e) options =
           \<lparr>isValid = False, errors = [''Failed to read CSV: '' @ message e],
            rowCount = 0, columns = []\<rparr>"
    by (simp add: validateCSV_def readCSV_def)
  show "validateCSV (Inr content) options =
           \<lparr>isValid = (errs = []), errors = errs, rowCount = length data, columns = cols\<rparr>"
  proof (cases "requiredFields options")
    case None
    then show ?thesis
      by (simp add: validateCSV_def readCSV_def Let_def errs_def cols_def data_def)
  next
    case (Some required)
    with assms(1) have "list_all (\<lambda>field. \<not> inherited field) required" by simp
    from check_rows_accumulates [OF this] Some show ?thesis
      by (simp add: validateCSV_def readCSV_def Let_def errs_def cols_def data_def)
  qed
qed

end
